theory Spec2Isabelle
  imports Main "HOL-Library.Word" "HOL-Library.Tree_Multiset" "HOL-Library.Monad_Syntax"
begin

section \<open>The node store\<close>

text \<open>
  \<^verbatim>\<open>Node<T>*\<close> is a pointer: either \<^verbatim>\<open>nullptr\<close> or the address of a node.
  A C++ member \<^verbatim>\<open>x_\<close> is the field \<open>x_f\<close> here, since no Isabelle name may end in an
  underscore.
\<close>

datatype ptr = Null | Ptr nat

record 'a Node =
  data_f :: 'a
  parent_f :: ptr
  left_f :: ptr
  right_f :: ptr

text \<open>
  The memory the allocator hands out: the live nodes by address, and the next address
  never handed out before. A freed node leaves \<open>cells\<close>, and its address is not used again.
\<close>

record 'a store =
  cells :: "nat \<rightharpoonup> 'a Node"
  fresh :: nat

text \<open>
  Every result is an option: \<open>None\<close> is undefined behaviour of the C++ (a read or write
  through \<^verbatim>\<open>nullptr\<close> or through a freed node) or a loop that never ends.
\<close>

definition rd :: "'a store \<Rightarrow> ptr \<Rightarrow> 'a Node option" where
  "rd s p = (case p of Null \<Rightarrow> None | Ptr a \<Rightarrow> cells s a)"

definition data_of :: "'a store \<Rightarrow> ptr \<Rightarrow> 'a option" where
  "data_of s p = map_option data_f (rd s p)"

definition parent_of :: "'a store \<Rightarrow> ptr \<Rightarrow> ptr option" where
  "parent_of s p = map_option parent_f (rd s p)"

definition left_of :: "'a store \<Rightarrow> ptr \<Rightarrow> ptr option" where
  "left_of s p = map_option left_f (rd s p)"

definition right_of :: "'a store \<Rightarrow> ptr \<Rightarrow> ptr option" where
  "right_of s p = map_option right_f (rd s p)"

definition wr :: "'a store \<Rightarrow> ptr \<Rightarrow> ('a Node \<Rightarrow> 'a Node) \<Rightarrow> 'a store option" where
  "wr s p f = (case p of Null \<Rightarrow> None
     | Ptr a \<Rightarrow> (case cells s a of None \<Rightarrow> None
         | Some n \<Rightarrow> Some (s\<lparr>cells := (cells s)(a \<mapsto> f n)\<rparr>)))"

definition wr_data :: "'a store \<Rightarrow> ptr \<Rightarrow> 'a \<Rightarrow> 'a store option" where
  "wr_data s p v = wr s p (\<lambda>n. n\<lparr>data_f := v\<rparr>)"

definition wr_parent :: "'a store \<Rightarrow> ptr \<Rightarrow> ptr \<Rightarrow> 'a store option" where
  "wr_parent s p q = wr s p (\<lambda>n. n\<lparr>parent_f := q\<rparr>)"

definition wr_left :: "'a store \<Rightarrow> ptr \<Rightarrow> ptr \<Rightarrow> 'a store option" where
  "wr_left s p q = wr s p (\<lambda>n. n\<lparr>left_f := q\<rparr>)"

definition wr_right :: "'a store \<Rightarrow> ptr \<Rightarrow> ptr \<Rightarrow> 'a store option" where
  "wr_right s p q = wr s p (\<lambda>n. n\<lparr>right_f := q\<rparr>)"

text \<open>
  \<^verbatim>\<open>alloc_node\<close>: a node nobody else holds, value-initialised (\<^verbatim>\<open>T()\<close> is \<open>0\<close>, every
  pointer is null). The allocator's own failure is not modelled.
\<close>

definition alloc_node :: "'a::zero store \<Rightarrow> ptr \<times> 'a store" where
  "alloc_node s =
     (Ptr (fresh s),
      s\<lparr>cells := (cells s)(fresh s \<mapsto>
           \<lparr>data_f = 0, parent_f = Null, left_f = Null, right_f = Null\<rparr>),
        fresh := Suc (fresh s)\<rparr>)"

definition delete_node :: "'a store \<Rightarrow> ptr \<Rightarrow> 'a store option" where
  "delete_node s p = (case p of Null \<Rightarrow> Some s
     | Ptr a \<Rightarrow> (case cells s a of None \<Rightarrow> None
         | Some n \<Rightarrow> Some (s\<lparr>cells := (cells s)(a := None)\<rparr>)))"

section \<open>The traversal engine\<close>

datatype Pick = Inorder | Preorder | Postorder

text \<open>\<^verbatim>\<open>while (it_->left_ != nullptr) it_ = it_->left_;\<close> and its mirror.\<close>

partial_function (option) descend_left :: "'a store \<Rightarrow> ptr \<Rightarrow> ptr option" where
  [code]: "descend_left s it =
     do { l \<leftarrow> left_of s it;
          if l \<noteq> Null then descend_left s l else Some it }"

partial_function (option) descend_right :: "'a store \<Rightarrow> ptr \<Rightarrow> ptr option" where
  [code]: "descend_right s it =
     do { r \<leftarrow> right_of s it;
          if r \<noteq> Null then descend_right s r else Some it }"

text \<open>
  The loop of \<^verbatim>\<open>Add(Inorder)\<close>:
  \<^verbatim>\<open>while (it_ == it_->parent_->right_) { it_ = it_->parent_;
       if (it_->parent_->parent_ == nullptr) break; }\<close>
\<close>

partial_function (option) Add_Inorder_loop :: "'a store \<Rightarrow> ptr \<Rightarrow> ptr option" where
  [code]: "Add_Inorder_loop s it =
     do { p \<leftarrow> parent_of s it;
          r \<leftarrow> right_of s p;
          if it = r then
            do { g \<leftarrow> parent_of s p;
                 gg \<leftarrow> parent_of s g;
                 if gg = Null then Some p else Add_Inorder_loop s p }
          else Some it }"

definition Add_Inorder :: "'a store \<Rightarrow> ptr \<Rightarrow> ptr option" where
  "Add_Inorder s it =
     do { r \<leftarrow> right_of s it;
          if r \<noteq> Null then descend_left s r
          else do {
            p \<leftarrow> parent_of s it;
            if p \<noteq> Null then do { it' \<leftarrow> Add_Inorder_loop s it; parent_of s it' }
            else Some it } }"

text \<open>
  The loop of \<^verbatim>\<open>Add(Preorder)\<close>:
  \<^verbatim>\<open>while (it_->parent_ != nullptr &&
         (it_ == it_->parent_->right_ || it_->parent_->right_ == nullptr))
      it_ = it_->parent_;\<close>
\<close>

partial_function (option) Add_Preorder_loop :: "'a store \<Rightarrow> ptr \<Rightarrow> ptr option" where
  [code]: "Add_Preorder_loop s it =
     do { p \<leftarrow> parent_of s it;
          if p \<noteq> Null then
            do { r \<leftarrow> right_of s p;
                 if it = r \<or> r = Null then Add_Preorder_loop s p else Some it }
          else Some it }"

definition Add_Preorder :: "'a store \<Rightarrow> ptr \<Rightarrow> ptr option" where
  "Add_Preorder s it =
     do { l \<leftarrow> left_of s it;
          if l \<noteq> Null then Some l
          else do {
            it1 \<leftarrow> Add_Preorder_loop s it;
            p \<leftarrow> parent_of s it1;
            let it2 = (if p \<noteq> Null then p else it1);
            r \<leftarrow> right_of s it2;
            Some (if r \<noteq> Null then r else it2) } }"

definition Add_Postorder :: "'a store \<Rightarrow> ptr \<Rightarrow> ptr option" where
  "Add_Postorder s it =
     do { p \<leftarrow> parent_of s it;
          l \<leftarrow> left_of s p;
          if it = l then
            do { r \<leftarrow> right_of s p;
                 if r \<noteq> Null then descend_left s r else Some p }
          else Some p }"

text \<open>
  The loop of \<^verbatim>\<open>Subtract(Inorder)\<close>:
  \<^verbatim>\<open>while (it_ == it_->parent_->left_) { it_ = it_->parent_;
       if (it_->parent_->parent_ == nullptr) break; }\<close>
\<close>

partial_function (option) Subtract_Inorder_loop :: "'a store \<Rightarrow> ptr \<Rightarrow> ptr option" where
  [code]: "Subtract_Inorder_loop s it =
     do { p \<leftarrow> parent_of s it;
          l \<leftarrow> left_of s p;
          if it = l then
            do { g \<leftarrow> parent_of s p;
                 gg \<leftarrow> parent_of s g;
                 if gg = Null then Some p else Subtract_Inorder_loop s p }
          else Some it }"

definition Subtract_Inorder :: "'a store \<Rightarrow> ptr \<Rightarrow> ptr option" where
  "Subtract_Inorder s it =
     do { l \<leftarrow> left_of s it;
          if l \<noteq> Null then descend_right s l
          else do {
            p \<leftarrow> parent_of s it;
            if p \<noteq> Null then do { it' \<leftarrow> Subtract_Inorder_loop s it; parent_of s it' }
            else Some it } }"

definition Subtract_Preorder :: "'a store \<Rightarrow> ptr \<Rightarrow> ptr option" where
  "Subtract_Preorder s it =
     do { p \<leftarrow> parent_of s it;
          if p = Null then do { l \<leftarrow> left_of s it; descend_right s l }
          else do {
            pl \<leftarrow> left_of s p;
            if it = pl then Some p
            else if pl \<noteq> Null then descend_right s pl
            else Some p } }"

text \<open>
  The loop of \<^verbatim>\<open>Subtract(Postorder)\<close>; the flag says that the loop left through its
  \<^verbatim>\<open>return *this\<close>:
  \<^verbatim>\<open>while (it_->parent_->right_ == nullptr || it_ == it_->parent_->left_) {
       it_ = it_->parent_; if (it_->parent_ == nullptr) return *this; }\<close>
\<close>

partial_function (option) Subtract_Postorder_loop :: "'a store \<Rightarrow> ptr \<Rightarrow> (bool \<times> ptr) option" where
  [code]: "Subtract_Postorder_loop s it =
     do { p \<leftarrow> parent_of s it;
          r \<leftarrow> right_of s p;
          l \<leftarrow> left_of s p;
          if r = Null \<or> it = l then
            do { g \<leftarrow> parent_of s p;
                 if g = Null then Some (True, p) else Subtract_Postorder_loop s p }
          else Some (False, it) }"

definition Subtract_Postorder :: "'a store \<Rightarrow> ptr \<Rightarrow> ptr option" where
  "Subtract_Postorder s it =
     do { p \<leftarrow> parent_of s it;
          if p = Null then left_of s it
          else do {
            r \<leftarrow> right_of s it;
            if r \<noteq> Null then Some r
            else do {
              l \<leftarrow> left_of s it;
              if l \<noteq> Null then Some l
              else do {
                (returned, it1) \<leftarrow> Subtract_Postorder_loop s it;
                if returned then Some it1
                else do {
                  it2 \<leftarrow> parent_of s it1;
                  l2 \<leftarrow> left_of s it2;
                  Some (if l2 \<noteq> Null then l2 else it2) } } } } }"

text \<open>\<^verbatim>\<open>operator++\<close> and \<^verbatim>\<open>operator--\<close> of \<^verbatim>\<open>Iterator<IsConst, Pick>\<close>.\<close>

fun Add :: "Pick \<Rightarrow> 'a store \<Rightarrow> ptr \<Rightarrow> ptr option" where
  "Add Inorder s it = Add_Inorder s it"
| "Add Preorder s it = Add_Preorder s it"
| "Add Postorder s it = Add_Postorder s it"

fun Subtract :: "Pick \<Rightarrow> 'a store \<Rightarrow> ptr \<Rightarrow> ptr option" where
  "Subtract Inorder s it = Subtract_Inorder s it"
| "Subtract Preorder s it = Subtract_Preorder s it"
| "Subtract Postorder s it = Subtract_Postorder s it"

text \<open>
  \<^verbatim>\<open>ReverseIterator<Iterator>\<close> holds a base cursor; its \<^verbatim>\<open>operator++\<close> is the base's
  \<^verbatim>\<open>operator--\<close> and its \<^verbatim>\<open>operator--\<close> the base's \<^verbatim>\<open>operator++\<close>.
\<close>

definition ReverseIterator_inc :: "Pick \<Rightarrow> 'a store \<Rightarrow> ptr \<Rightarrow> ptr option" where
  "ReverseIterator_inc pick s it = Subtract pick s it"

definition ReverseIterator_dec :: "Pick \<Rightarrow> 'a store \<Rightarrow> ptr \<Rightarrow> ptr option" where
  "ReverseIterator_dec pick s it = Add pick s it"

section \<open>The container\<close>

text \<open>\<^verbatim>\<open>size_t\<close> is taken as 64 bits wide.\<close>

record BST =
  root_f :: ptr
  size_f :: "64 word"

definition BST_new :: "'a::zero store \<Rightarrow> BST \<times> 'a store" where
  "BST_new s = (let (p, s') = alloc_node s in (\<lparr>root_f = p, size_f = 0\<rparr>, s'))"

text \<open>\<^verbatim>\<open>Leftmost()\<close> and \<^verbatim>\<open>Leftmost(node)\<close>.\<close>

definition Leftmost :: "BST \<Rightarrow> 'a store \<Rightarrow> ptr option" where
  "Leftmost b s =
     do { l \<leftarrow> left_of s (root_f b);
          if l = Null then Some (root_f b) else descend_left s l }"

definition Leftmost_from :: "'a store \<Rightarrow> ptr \<Rightarrow> ptr option" where
  "Leftmost_from s node = descend_left s node"

fun begin_BST :: "Pick \<Rightarrow> BST \<Rightarrow> 'a store \<Rightarrow> ptr option" where
  "begin_BST Inorder b s = Leftmost b s"
| "begin_BST Preorder b s = left_of s (root_f b)"
| "begin_BST Postorder b s = Leftmost_from s (root_f b)"

definition end_BST :: "Pick \<Rightarrow> BST \<Rightarrow> ptr" where
  "end_BST pick b = root_f b"

definition empty_BST :: "BST \<Rightarrow> 'a store \<Rightarrow> bool option" where
  "empty_BST b s = do { l \<leftarrow> left_of s (root_f b); Some (l = Null) }"

definition size_BST :: "BST \<Rightarrow> 64 word" where
  "size_BST b = size_f b"

text \<open>
  \<^verbatim>\<open>insert\<close>, with the default comparator \<^verbatim>\<open>std::less<T>\<close>. The loop keeps
  \<^verbatim>\<open>current\<close> and \<^verbatim>\<open>parent\<close> and returns the last \<^verbatim>\<open>parent\<close>.
\<close>

partial_function (option) insert_loop :: "'a::linorder store \<Rightarrow> 'a \<Rightarrow> ptr \<Rightarrow> ptr \<Rightarrow> ptr option" where
  [code]: "insert_loop s v current parent =
     (if current \<noteq> Null then
        do { d \<leftarrow> data_of s current;
             if v < d then do { l \<leftarrow> left_of s current; insert_loop s v l current }
             else do { r \<leftarrow> right_of s current; insert_loop s v r current } }
      else Some parent)"

definition insert_BST ::
  "'a::{linorder,zero} \<Rightarrow> BST \<Rightarrow> 'a store \<Rightarrow> ((ptr \<times> bool) \<times> BST \<times> 'a store) option" where
  "insert_BST v b s =
     do { current \<leftarrow> left_of s (root_f b);
          parent \<leftarrow> insert_loop s v current (root_f b);
          let (newNode, s0) = alloc_node s;
          s1 \<leftarrow> wr_data s0 newNode v;
          s2 \<leftarrow> wr_parent s1 newNode parent;
          s3 \<leftarrow> wr_left s2 newNode Null;
          s4 \<leftarrow> wr_right s3 newNode Null;
          pp \<leftarrow> parent_of s4 parent;
          s5 \<leftarrow> (if pp = Null then wr_left s4 (root_f b) newNode
                else do { d \<leftarrow> data_of s4 parent;
                          if v < d then wr_left s4 parent newNode
                          else wr_right s4 parent newNode });
          Some ((newNode, True), b\<lparr>size_f := size_f b + 1\<rparr>, s5) }"

text \<open>\<^verbatim>\<open>insert(first, last)\<close>: one \<^verbatim>\<open>insert\<close> per element, in order.\<close>

fun insert_range :: "'a::{linorder,zero} list \<Rightarrow> BST \<Rightarrow> 'a store \<Rightarrow> (BST \<times> 'a store) option" where
  "insert_range [] b s = Some (b, s)"
| "insert_range (v # vs) b s =
     do { (r, b', s') \<leftarrow> insert_BST v b s; insert_range vs b' s' }"

text \<open>\<^verbatim>\<open>BST(initializer_list<T>)\<close>, in an empty memory.\<close>

definition empty_store :: "'a store" where
  "empty_store = \<lparr>cells = Map.empty, fresh = 0\<rparr>"

definition BST_of_list :: "'a::{linorder,zero} list \<Rightarrow> (BST \<times> 'a store) option" where
  "BST_of_list vs = (let (b, s) = BST_new empty_store in insert_range vs b s)"

text \<open>
  \<^verbatim>\<open>DeleteNode\<close>. Each statement reads the memory as the statements before it left it.
  \<open>relink\<close> is the pair of statements
  \<^verbatim>\<open>node->parent_->left_ = c; c->parent_ = node->parent_;\<close> (or with \<^verbatim>\<open>right_\<close>), where
  \<^verbatim>\<open>c\<close> is read through \<^verbatim>\<open>node\<close> by \<open>child\<close>.
\<close>

definition relink :: "'a store \<Rightarrow> ptr \<Rightarrow> ('a store \<Rightarrow> ptr \<Rightarrow> ptr option) \<Rightarrow> 'a store option" where
  "relink s node child =
     do { p \<leftarrow> parent_of s node;
          pl \<leftarrow> left_of s p;
          c \<leftarrow> child s node;
          s1 \<leftarrow> (if node = pl then wr_left s p c else wr_right s p c);
          c1 \<leftarrow> child s1 node;
          p1 \<leftarrow> parent_of s1 node;
          wr_parent s1 c1 p1 }"

definition DeleteNode :: "'a store \<Rightarrow> ptr \<Rightarrow> 'a store option" where
  "DeleteNode s node =
     do { l \<leftarrow> left_of s node;
          r \<leftarrow> right_of s node;
          s' \<leftarrow> (if l = Null \<and> r = Null then
                  do { p \<leftarrow> parent_of s node;
                       pl \<leftarrow> left_of s p;
                       if node = pl then wr_left s p Null else wr_right s p Null }
                else if l = Null then relink s node right_of
                else if r = Null then relink s node left_of
                else
                  do { temp \<leftarrow> Leftmost_from s r;
                       s1 \<leftarrow> relink s node right_of;
                       l1 \<leftarrow> left_of s1 node;
                       s2 \<leftarrow> wr_left s1 temp l1;
                       l2 \<leftarrow> left_of s2 node;
                       wr_parent s2 l2 temp });
          delete_node s' node }"

text \<open>\<^verbatim>\<open>erase(Iterator<IsConst, Pick>)\<close>.\<close>

definition erase_BST :: "Pick \<Rightarrow> BST \<Rightarrow> 'a store \<Rightarrow> ptr \<Rightarrow> (ptr \<times> BST \<times> 'a store) option" where
  "erase_BST pick b s it =
     (if it = end_BST pick b then Some (it, b, s)
      else do { it' \<leftarrow> Add pick s it;
                s' \<leftarrow> DeleteNode s it;
                Some (it', b\<lparr>size_f := size_f b - 1\<rparr>, s') })"

text \<open>\<^verbatim>\<open>find(value, Pick)\<close>: \<^verbatim>\<open>while (it != end(Pick()) && *it != value) ++it;\<close>\<close>

partial_function (option) find_loop :: "Pick \<Rightarrow> BST \<Rightarrow> 'a store \<Rightarrow> 'a \<Rightarrow> ptr \<Rightarrow> ptr option" where
  [code]: "find_loop pick b s v it =
     (if it \<noteq> end_BST pick b then
        do { d \<leftarrow> data_of s it;
             if d \<noteq> v then do { it' \<leftarrow> Add pick s it; find_loop pick b s v it' }
             else Some it }
      else Some it)"

definition find_BST :: "Pick \<Rightarrow> BST \<Rightarrow> 'a store \<Rightarrow> 'a \<Rightarrow> ptr option" where
  "find_BST pick b s v = do { it \<leftarrow> begin_BST pick b s; find_loop pick b s v it }"

text \<open>\<^verbatim>\<open>swap(BST& other)\<close>: the two objects after the call.\<close>

definition swap_BST :: "BST \<Rightarrow> BST \<Rightarrow> BST \<times> BST" where
  "swap_BST this other = (this\<lparr>root_f := root_f other\<rparr>, other\<lparr>root_f := root_f this\<rparr>)"

text \<open>
  Full forward iteration, as the callers write it:
  \<^verbatim>\<open>for (auto i = bst.begin(P); i != bst.end(P); ++i) out.push_back(*i);\<close>
\<close>

partial_function (option) visit_loop :: "Pick \<Rightarrow> BST \<Rightarrow> 'a store \<Rightarrow> ptr \<Rightarrow> 'a list option" where
  [code]: "visit_loop pick b s it =
     (if it \<noteq> end_BST pick b then
        do { d \<leftarrow> data_of s it;
             it' \<leftarrow> Add pick s it;
             ds \<leftarrow> visit_loop pick b s it';
             Some (d # ds) }
      else Some [])"

definition visit :: "Pick \<Rightarrow> BST \<Rightarrow> 'a store \<Rightarrow> 'a list option" where
  "visit pick b s = do { it \<leftarrow> begin_BST pick b s; visit_loop pick b s it }"

section \<open>What a memory holds: the tree behind a container\<close>

text \<open>
  \<open>is_tree s par p t\<close>: in \<open>s\<close>, the pointer \<open>p\<close> is the root of the tree \<open>t\<close> of
  (address, value) pairs, every node pointing back at its parent, the root at \<open>par\<close>.
\<close>

fun is_tree :: "'a store \<Rightarrow> ptr \<Rightarrow> ptr \<Rightarrow> (nat \<times> 'a) tree \<Rightarrow> bool" where
  "is_tree s par p Leaf = (p = Null)"
| "is_tree s par p (Node l (a, v) r) =
     (p = Ptr a \<and>
      (case cells s a of None \<Rightarrow> False
       | Some n \<Rightarrow> data_f n = v \<and> parent_f n = par \<and>
           is_tree s (Ptr a) (left_f n) l \<and> is_tree s (Ptr a) (right_f n) r))"

text \<open>
  \<open>repr b s t\<close>: the container \<open>b\<close> in the memory \<open>s\<close> holds the data nodes \<open>t\<close> below its
  sentinel: the sentinel has no parent and no right child, its left child is the data
  root, no address occurs twice, and every node was handed out by the allocator.
\<close>

definition repr :: "BST \<Rightarrow> 'a store \<Rightarrow> (nat \<times> 'a) tree \<Rightarrow> bool" where
  "repr b s t =
     (case root_f b of Null \<Rightarrow> False
      | Ptr r \<Rightarrow>
         (case cells s r of None \<Rightarrow> False
          | Some sn \<Rightarrow> parent_f sn = Null \<and> right_f sn = Null \<and>
              is_tree s (Ptr r) (left_f sn) t \<and>
              r \<notin> fst ` set_tree t \<and> distinct (map fst (inorder t)) \<and>
              r < fresh s \<and> (\<forall>a \<in> fst ` set_tree t. a < fresh s)))"

text \<open>The stored values, as a tree.\<close>

definition values_of :: "(nat \<times> 'a) tree \<Rightarrow> 'a tree" where
  "values_of t = map_tree snd t"

text \<open>
  The tree invariant of the specification: at every node, the values of the left subtree
  are at most the node's value and those of the right subtree at least it.
\<close>

fun tree_inv :: "'a::linorder tree \<Rightarrow> bool" where
  "tree_inv Leaf = True"
| "tree_inv (Node l v r) =
     ((\<forall>x \<in> set_tree l. x \<le> v) \<and> (\<forall>x \<in> set_tree r. v \<le> x) \<and> tree_inv l \<and> tree_inv r)"

text \<open>
  Insertion as the specification words it: left when the value is strictly less, right
  otherwise, the new node a leaf. \<open>k\<close> is the address of the new node.
\<close>

fun insert_spec :: "nat \<Rightarrow> 'a::linorder \<Rightarrow> (nat \<times> 'a) tree \<Rightarrow> (nat \<times> 'a) tree" where
  "insert_spec k v Leaf = Node Leaf (k, v) Leaf"
| "insert_spec k v (Node l (a, w) r) =
     (if v < w then Node (insert_spec k v l) (a, w) r else Node l (a, w) (insert_spec k v r))"

text \<open>
  Deletion as the specification words it: the right subtree takes the place of the
  deleted node and the left subtree becomes the left child of the right subtree's
  minimum; with one subtree or none this is the one-child and the leaf case.
\<close>

fun graft :: "'b tree \<Rightarrow> 'b tree \<Rightarrow> 'b tree" where
  "graft l Leaf = l"
| "graft l (Node rl x rr) = Node (graft l rl) x rr"

fun delete_spec :: "nat \<Rightarrow> (nat \<times> 'a) tree \<Rightarrow> (nat \<times> 'a) tree" where
  "delete_spec x Leaf = Leaf"
| "delete_spec x (Node l (a, v) r) =
     (if x = a then graft l r else Node (delete_spec x l) (a, v) (delete_spec x r))"


section \<open>Notions used in the proofs\<close>

text \<open>The address after \<open>x\<close> in a list of nodes, if any.\<close>

fun next_after :: "nat \<Rightarrow> (nat \<times> 'a) list \<Rightarrow> nat option" where
  "next_after x [] = None"
| "next_after x ((y, v) # ys) =
     (if x = y then (case ys of [] \<Rightarrow> None | (z, w) # zs \<Rightarrow> Some z) else next_after x ys)"

text \<open>The cursor at the first of the nodes \<open>ys\<close>; the cursor \<open>e\<close> when none is left.\<close>

definition cursor_at :: "ptr \<Rightarrow> (nat \<times> 'a) list \<Rightarrow> ptr" where
  "cursor_at e ys = (case ys of [] \<Rightarrow> e | (y, v) # zs \<Rightarrow> Ptr y)"

text \<open>
  The node below which \<open>insert_spec\<close> hangs the new leaf: the last node of the search
  path, \<open>q\<close> for the empty tree.
\<close>

fun attach_at :: "'a::linorder \<Rightarrow> (nat \<times> 'a) tree \<Rightarrow> nat \<Rightarrow> nat" where
  "attach_at v Leaf q = q"
| "attach_at v (Node l (a, w) r) q = (if v < w then attach_at v l a else attach_at v r a)"

definition new_leaf :: "'a \<Rightarrow> nat \<Rightarrow> 'a Node" where
  "new_leaf v q = \<lparr>data_f = v, parent_f = Ptr q, left_f = Null, right_f = Null\<rparr>"

definition hang :: "'a::linorder \<Rightarrow> nat \<Rightarrow> 'a Node \<Rightarrow> 'a Node" where
  "hang v k n = (if v < data_f n then n\<lparr>left_f := Ptr k\<rparr> else n\<lparr>right_f := Ptr k\<rparr>)"

fun root_ptr :: "(nat \<times> 'a) tree \<Rightarrow> ptr" where
  "root_ptr Leaf = Null"
| "root_ptr (Node l (a, v) r) = Ptr a"

text \<open>A node with its left (\<open>lf\<close>) or right child pointer set to \<open>c\<close>.\<close>

definition slot :: "bool \<Rightarrow> 'a Node \<Rightarrow> ptr \<Rightarrow> 'a Node" where
  "slot lf pn c = (if lf then pn\<lparr>left_f := c\<rparr> else pn\<lparr>right_f := c\<rparr>)"


section \<open>Reading and writing the store\<close>

lemma rd_simps [simp]: "rd s Null = None" "rd s (Ptr a) = cells s a"
  by (simp_all add: rd_def)

lemma field_Null [simp]:
  "data_of s Null = None" "parent_of s Null = None" "left_of s Null = None" "right_of s Null = None"
  by (simp_all add: data_of_def parent_of_def left_of_def right_of_def)

lemma field_Ptr:
  "data_of s (Ptr a) = map_option data_f (cells s a)"
  "parent_of s (Ptr a) = map_option parent_f (cells s a)"
  "left_of s (Ptr a) = map_option left_f (cells s a)"
  "right_of s (Ptr a) = map_option right_f (cells s a)"
  by (simp_all add: data_of_def parent_of_def left_of_def right_of_def)

lemma wr_Ptr:
  "cells s a = Some n \<Longrightarrow> wr s (Ptr a) f = Some (s\<lparr>cells := (cells s)(a \<mapsto> f n)\<rparr>)"
  by (simp add: wr_def)

lemma is_tree_Null [simp]: "is_tree s par Null t = (t = Leaf)"
  by (cases t) auto

lemma is_tree_PtrE:
  assumes "is_tree s par (Ptr a) t"
  obtains l v r n where "t = Node l (a, v) r" "cells s a = Some n" "data_f n = v"
    "parent_f n = par" "is_tree s (Ptr a) (left_f n) l" "is_tree s (Ptr a) (right_f n) r"
  using assms by (cases t) (auto split: option.splits)

lemma is_tree_frame:
  "is_tree s par p t \<Longrightarrow> \<forall>a \<in> fst ` set_tree t. cells s' a = cells s a
     \<Longrightarrow> is_tree s' par p t"
  by (induction t arbitrary: par p) (auto split: option.splits)

lemma is_tree_cell:
  "is_tree s par p t \<Longrightarrow> (a, v) \<in> set_tree t \<Longrightarrow> \<exists>n. cells s a = Some n \<and> data_f n = v"
  by (induction t arbitrary: par p) (auto split: option.splits)

lemma is_tree_parent:
  "is_tree s (Ptr q) p t \<Longrightarrow> (a, v) \<in> set_tree t \<Longrightarrow> \<exists>n q'. cells s a = Some n \<and> parent_f n = Ptr q'"
  by (induction t arbitrary: q p) (auto split: option.splits)

text \<open>descend_left reaches the first node in order\<close>
lemma descend_left_hd:
  "is_tree s par (Ptr a) t \<Longrightarrow> descend_left s (Ptr a) = Some (Ptr (fst (hd (inorder t))))"
proof (induction t arbitrary: par a)
  case Leaf
  then show ?case by simp
next
  case (Node l x r)
  from Node.prems obtain v n where n: "x = (a, v)" "cells s a = Some n"
    "is_tree s (Ptr a) (left_f n) l"
    by (cases x) (auto split: option.splits)
  show ?case
  proof (cases "left_f n")
    case Null
    with n have "l = Leaf" by simp
    with n Null show ?thesis
      by (subst descend_left.simps) (simp add: field_Ptr)
  next
    case (Ptr la)
    with n have t: "is_tree s (Ptr a) (Ptr la) l" by simp
    then have "l \<noteq> Leaf" by auto
    then have "inorder l \<noteq> []" by (cases l) auto
    with Node.IH(1)[OF t] n Ptr show ?thesis
      by (subst descend_left.simps) (simp add: field_Ptr)
  qed
qed

section \<open>The in-order successor\<close>

lemma next_after_append_in:
  "x \<in> fst ` set xs \<Longrightarrow> next_after x (xs @ ys) =
     (case next_after x xs of Some z \<Rightarrow> Some z
      | None \<Rightarrow> (case ys of [] \<Rightarrow> None | (z, w) # zs \<Rightarrow> Some z))"
proof (induction xs)
  case Nil
  then show ?case by simp
next
  case (Cons p xs)
  obtain y v where p: "p = (y, v)" by (cases p)
  show ?case
  proof (cases "x = y")
    case True
    then show ?thesis by (cases xs) (auto simp: p split: list.splits)
  next
    case False
    with Cons show ?thesis by (auto simp: p)
  qed
qed

lemma next_after_append_notin:
  "x \<notin> fst ` set xs \<Longrightarrow> next_after x (xs @ ys) = next_after x ys"
  by (induction xs) auto

lemma next_after_mid:
  "distinct (map fst (xs @ (x, v) # ys)) \<Longrightarrow>
   next_after x (xs @ (x, v) # ys) = (case ys of [] \<Rightarrow> None | (z, w) # zs \<Rightarrow> Some z)"
  by (subst next_after_append_notin) (auto simp: image_iff)

lemma inorder_nonempty: "t \<noteq> Leaf \<Longrightarrow> inorder t \<noteq> []"
  by (cases t) auto

lemma Add_Inorder_sub:
  assumes "is_tree s (Ptr p) (Ptr a) t" "distinct (map fst (inorder t))"
    "cells s p = Some pn" "parent_f pn = Null \<longrightarrow> right_f pn = Null"
    "x \<in> fst ` set_tree t"
  shows "case next_after x (inorder t) of
           Some y \<Rightarrow> Add_Inorder s (Ptr x) = Some (Ptr y)
         | None \<Rightarrow> right_of s (Ptr x) = Some Null \<and>
                    Add_Inorder_loop s (Ptr x) = Add_Inorder_loop s (Ptr a)"
  using assms
proof (induction t arbitrary: p a pn)
  case Leaf
  then show ?case by simp
next
  case (Node l e r)
  from Node.prems(1) obtain v n where n: "e = (a, v)" "cells s a = Some n" "parent_f n = Ptr p"
    "is_tree s (Ptr a) (left_f n) l" "is_tree s (Ptr a) (right_f n) r"
    by (cases e) (auto split: option.splits)
  from Node.prems(2) have d: "distinct (map fst (inorder l))" "distinct (map fst (inorder r))"
    "a \<notin> fst ` set_tree l" "a \<notin> fst ` set_tree r" "fst ` set_tree l \<inter> fst ` set_tree r = {}"
    by (auto simp: n(1))
  have io: "inorder \<langle>l, e, r\<rangle> = inorder l @ (a, v) # inorder r" by (simp add: n(1))
  have van: "parent_f n = Null \<longrightarrow> right_f n = Null" by (simp add: n(3))
  from Node.prems(5) consider (L) "x \<in> fst ` set_tree l" | (M) "x = a" | (R) "x \<in> fst ` set_tree r"
    by (auto simp: n(1))
  then show ?case
  proof cases
    case L
    then have "l \<noteq> Leaf" by auto
    with n(4) obtain la where la: "left_f n = Ptr la" by (cases "left_f n") auto
    with n(4) have tl: "is_tree s (Ptr a) (Ptr la) l" by simp
    note IH = Node.IH(1)[OF tl d(1) n(2) van L]
    have na: "next_after x (inorder \<langle>l, e, r\<rangle>) =
        (case next_after x (inorder l) of Some z \<Rightarrow> Some z | None \<Rightarrow> Some a)"
      using L by (simp add: n(1) next_after_append_in split: option.splits)
    show ?thesis
    proof (cases "next_after x (inorder l)")
      case (Some z)
      with IH na show ?thesis by simp
    next
      case None
      with IH have rx: "right_of s (Ptr x) = Some Null"
        and lx: "Add_Inorder_loop s (Ptr x) = Add_Inorder_loop s (Ptr la)" by simp_all
      from tl obtain ln where ln: "cells s la = Some ln" "parent_f ln = Ptr a"
        by (rule is_tree_PtrE)
      have "la \<in> fst ` set_tree l" using tl by (auto elim!: is_tree_PtrE)
      with d(5) have "la \<notin> fst ` set_tree r" by auto
      with n(5) have ne: "right_f n \<noteq> Ptr la" by (auto elim!: is_tree_PtrE)
      have lla: "Add_Inorder_loop s (Ptr la) = Some (Ptr la)"
        using ln n(2) ne by (subst Add_Inorder_loop.simps) (auto simp: field_Ptr)
      from is_tree_parent[OF tl] L obtain xn q' where "cells s x = Some xn" "parent_f xn = Ptr q'"
        by force
      then have "Add_Inorder s (Ptr x) = Some (Ptr a)"
        using rx lx lla ln by (simp add: Add_Inorder_def field_Ptr)
      with na None show ?thesis by simp
    qed
  next
    case M
    have na: "next_after x (inorder \<langle>l, e, r\<rangle>) =
        (case inorder r of [] \<Rightarrow> None | (z, w) # zs \<Rightarrow> Some z)"
      using d(3) by (simp add: n(1) M next_after_append_notin)
    show ?thesis
    proof (cases "right_f n")
      case Null
      with n(5) have "r = Leaf" by simp
      with na Null n(2) show ?thesis by (simp add: M field_Ptr)
    next
      case (Ptr ra)
      with n(5) have tr: "is_tree s (Ptr a) (Ptr ra) r" by simp
      then have "r \<noteq> Leaf" by auto
      then obtain z w zs where zs: "inorder r = (z, w) # zs"
        using inorder_nonempty[of r] by (cases "inorder r") auto
      have "Add_Inorder s (Ptr x) = Some (Ptr z)"
        using descend_left_hd[OF tr] n(2) Ptr zs by (simp add: Add_Inorder_def field_Ptr M)
      with na zs show ?thesis by simp
    qed
  next
    case R
    then have "r \<noteq> Leaf" by auto
    with n(5) obtain ra where ra: "right_f n = Ptr ra" by (cases "right_f n") auto
    with n(5) have tr: "is_tree s (Ptr a) (Ptr ra) r" by simp
    note IH = Node.IH(2)[OF tr d(2) n(2) van R]
    from R d have "x \<notin> fst ` set_tree l" "x \<noteq> a" by auto
    then have na: "next_after x (inorder \<langle>l, e, r\<rangle>) = next_after x (inorder r)"
      by (simp add: n(1) next_after_append_notin)
    show ?thesis
    proof (cases "next_after x (inorder r)")
      case (Some z)
      with IH na show ?thesis by simp
    next
      case None
      with IH have rx: "right_of s (Ptr x) = Some Null"
        and lx: "Add_Inorder_loop s (Ptr x) = Add_Inorder_loop s (Ptr ra)" by simp_all
      from tr obtain rn where rn: "cells s ra = Some rn" "parent_f rn = Ptr a"
        by (rule is_tree_PtrE)
      have "Add_Inorder_loop s (Ptr ra) = Add_Inorder_loop s (Ptr a)"
      proof (cases "parent_f pn = Null")
        case True
        with Node.prems(4) have "right_f pn = Null" by simp
        then have "Add_Inorder_loop s (Ptr a) = Some (Ptr a)"
          using n(2,3) Node.prems(3) by (subst Add_Inorder_loop.simps) (simp add: field_Ptr)
        moreover have "Add_Inorder_loop s (Ptr ra) = Some (Ptr a)"
          using rn n(2,3) ra Node.prems(3) True by (subst Add_Inorder_loop.simps) (simp add: field_Ptr)
        ultimately show ?thesis by simp
      next
        case False
        then show ?thesis
          using rn n(2,3) ra Node.prems(3)
          by (subst Add_Inorder_loop.simps) (simp add: field_Ptr)
      qed
      with rx lx na None show ?thesis by simp
    qed
  qed
qed

section \<open>The in-order walk\<close>

lemma reprE:
  assumes "repr b s t"
  obtains r sn where "root_f b = Ptr r" "cells s r = Some sn" "parent_f sn = Null"
    "right_f sn = Null" "is_tree s (Ptr r) (left_f sn) t" "r \<notin> fst ` set_tree t"
    "distinct (map fst (inorder t))" "r < fresh s" "\<forall>a \<in> fst ` set_tree t. a < fresh s"
  using assms unfolding repr_def by (auto split: ptr.splits option.splits)

lemma Add_Inorder_repr:
  assumes "repr b s t" "x \<in> fst ` set_tree t"
  shows "Add_Inorder s (Ptr x) =
           Some (case next_after x (inorder t) of None \<Rightarrow> root_f b | Some y \<Rightarrow> Ptr y)"
proof -
  from assms(1) obtain r sn where r: "root_f b = Ptr r" "cells s r = Some sn" "parent_f sn = Null"
    "right_f sn = Null" "is_tree s (Ptr r) (left_f sn) t" "r \<notin> fst ` set_tree t"
    "distinct (map fst (inorder t))"
    by (rule reprE)
  from assms(2) have "t \<noteq> Leaf" by auto
  with r(5) obtain a where a: "left_f sn = Ptr a" by (cases "left_f sn") auto
  with r(5) have ta: "is_tree s (Ptr r) (Ptr a) t" by simp
  from r(4) have van: "parent_f sn = Null \<longrightarrow> right_f sn = Null" by simp
  note sub = Add_Inorder_sub[OF ta r(7) r(2) van assms(2)]
  show ?thesis
  proof (cases "next_after x (inorder t)")
    case (Some y)
    with sub show ?thesis by simp
  next
    case None
    with sub have rx: "right_of s (Ptr x) = Some Null"
      and lx: "Add_Inorder_loop s (Ptr x) = Add_Inorder_loop s (Ptr a)" by simp_all
    from ta obtain an where an: "cells s a = Some an" "parent_f an = Ptr r"
      by (rule is_tree_PtrE)
    have la: "Add_Inorder_loop s (Ptr a) = Some (Ptr a)"
      using an r(2,4) by (subst Add_Inorder_loop.simps) (simp add: field_Ptr)
    from is_tree_parent[OF ta] assms(2) obtain xn q' where "cells s x = Some xn" "parent_f xn = Ptr q'"
      by force
    then have "Add_Inorder s (Ptr x) = Some (Ptr r)"
      using rx lx la an by (simp add: Add_Inorder_def field_Ptr)
    with None r(1) show ?thesis by simp
  qed
qed

lemma Leftmost_repr:
  assumes "repr b s t"
  shows "Leftmost b s = Some (cursor_at (root_f b) (inorder t))"
proof -
  from assms obtain r sn where r: "root_f b = Ptr r" "cells s r = Some sn"
    "is_tree s (Ptr r) (left_f sn) t"
    by (rule reprE)
  show ?thesis
  proof (cases "left_f sn")
    case Null
    with r show ?thesis by (simp add: Leftmost_def field_Ptr cursor_at_def)
  next
    case (Ptr a)
    with r have ta: "is_tree s (Ptr r) (Ptr a) t" by simp
    then have "t \<noteq> Leaf" by auto
    then obtain z w zs where zs: "inorder t = (z, w) # zs"
      using inorder_nonempty[of t] by (cases "inorder t") auto
    with descend_left_hd[OF ta] r Ptr show ?thesis
      by (simp add: Leftmost_def field_Ptr cursor_at_def)
  qed
qed

lemma in_inorder_addr: "inorder t = xs @ (y, v) # ys \<Longrightarrow> y \<in> fst ` set_tree t"
  by (metis (no_types, lifting) fst_conv image_iff in_set_conv_decomp set_inorder)

lemma Add_Inorder_at:
  assumes "repr b s t" "inorder t = xs @ (y, v) # ys"
  shows "Add_Inorder s (Ptr y) = Some (cursor_at (root_f b) ys)"
proof -
  from assms(1) have d: "distinct (map fst (inorder t))" by (rule reprE)
  have "next_after y (inorder t) = (case ys of [] \<Rightarrow> None | (z, w) # zs \<Rightarrow> Some z)"
    using d unfolding assms(2) by (rule next_after_mid)
  with Add_Inorder_repr[OF assms(1) in_inorder_addr[OF assms(2)]] show ?thesis
    by (simp add: cursor_at_def split: list.splits)
qed

lemma visit_loop_suffix:
  assumes "repr b s t"
  shows "inorder t = xs @ ys \<Longrightarrow>
         visit_loop Inorder b s (cursor_at (root_f b) ys) = Some (map snd ys)"
proof (induction ys arbitrary: xs)
  case Nil
  then show ?case by (subst visit_loop.simps) (simp add: cursor_at_def end_BST_def)
next
  case (Cons e ys)
  obtain y v where e: "e = (y, v)" by (cases e)
  from assms obtain r sn where r: "root_f b = Ptr r" "r \<notin> fst ` set_tree t"
    "is_tree s (Ptr r) (left_f sn) t" "cells s r = Some sn"
    by (rule reprE)
  from Cons.prems have io: "inorder t = xs @ (y, v) # ys" by (simp add: e)
  have yt: "(y, v) \<in> set_tree t"
    using io by (metis in_set_conv_decomp set_inorder)
  with r(2) have ne: "y \<noteq> r" by force
  from is_tree_cell[OF r(3) yt] obtain n where n: "cells s y = Some n" "data_f n = v" by auto
  have "inorder t = (xs @ [e]) @ ys" using Cons.prems by simp
  from Cons.IH[OF this] have IH: "visit_loop Inorder b s (cursor_at (root_f b) ys) = Some (map snd ys)" .
  show ?case
    using ne n IH Add_Inorder_at[OF assms io]
    by (subst visit_loop.simps) (simp add: cursor_at_def end_BST_def r(1) e field_Ptr)
qed

lemma visit_Inorder_repr:
  assumes "repr b s t"
  shows "visit Inorder b s = Some (map snd (inorder t))"
  using visit_loop_suffix[OF assms, of "[]" "inorder t"] Leftmost_repr[OF assms]
  by (simp add: visit_def)


section \<open>Insertion\<close>

lemma insert_loop_attach:
  "is_tree s par c t \<Longrightarrow> insert_loop s v c (Ptr q) = Some (Ptr (attach_at v t q))"
proof (induction t arbitrary: par c q)
  case Leaf
  then show ?case by (subst insert_loop.simps) simp
next
  case (Node l e r)
  from Node.prems obtain a w n where n: "e = (a, w)" "c = Ptr a" "cells s a = Some n" "data_f n = w"
    "is_tree s (Ptr a) (left_f n) l" "is_tree s (Ptr a) (right_f n) r"
    by (cases e) (auto split: option.splits)
  show ?case
    using n(1-4) Node.IH(1)[OF n(5), of a] Node.IH(2)[OF n(6), of a]
    by (subst insert_loop.simps) (simp add: field_Ptr)
qed

lemma attach_at_in: "t \<noteq> Leaf \<Longrightarrow> attach_at v t q \<in> fst ` set_tree t"
proof (induction t arbitrary: q)
  case Leaf
  then show ?case by simp
next
  case (Node l e r)
  obtain a w where e: "e = (a, w)" by (cases e)
  show ?case
  proof (cases "v < w")
    case True
    then show ?thesis using Node.IH(1)[of a] by (cases "l = Leaf") (auto simp: e)
  next
    case False
    then show ?thesis using Node.IH(2)[of a] by (cases "r = Leaf") (auto simp: e)
  qed
qed

lemma set_tree_insert_spec: "set_tree (insert_spec k v t) = insert (k, v) (set_tree t)"
  by (induction t) (auto split: if_splits)

lemma inorder_insert_spec:
  "\<exists>xs ys. inorder t = xs @ ys \<and> inorder (insert_spec k v t) = xs @ (k, v) # ys"
proof (induction t)
  case Leaf
  then show ?case by simp
next
  case (Node l e r)
  obtain a w where e: "e = (a, w)" by (cases e)
  show ?case
  proof (cases "v < w")
    case True
    from Node.IH(1) obtain xs ys where "inorder l = xs @ ys"
      "inorder (insert_spec k v l) = xs @ (k, v) # ys" by blast
    then have "inorder \<langle>l, e, r\<rangle> = xs @ (ys @ e # inorder r) \<and>
      inorder (insert_spec k v \<langle>l, e, r\<rangle>) = xs @ (k, v) # (ys @ e # inorder r)"
      using True by (simp add: e)
    then show ?thesis by blast
  next
    case False
    from Node.IH(2) obtain xs ys where "inorder r = xs @ ys"
      "inorder (insert_spec k v r) = xs @ (k, v) # ys" by blast
    then have "inorder \<langle>l, e, r\<rangle> = (inorder l @ e # xs) @ ys \<and>
      inorder (insert_spec k v \<langle>l, e, r\<rangle>) = (inorder l @ e # xs) @ (k, v) # ys"
      using False by (simp add: e)
    then show ?thesis by blast
  qed
qed

lemma distinct_insert_spec:
  assumes "k \<notin> fst ` set_tree t" "distinct (map fst (inorder t))"
  shows "distinct (map fst (inorder (insert_spec k v t)))"
proof -
  obtain xs ys where io: "inorder t = xs @ ys" "inorder (insert_spec k v t) = xs @ (k, v) # ys"
    using inorder_insert_spec by blast
  from assms(1) have "k \<notin> fst ` set (inorder t)" by simp
  with assms(2) show ?thesis unfolding io by auto
qed

lemma is_tree_insert:
  assumes "is_tree s par (Ptr a) t" "distinct (map fst (inorder t))" "k \<notin> fst ` set_tree t"
    "cells s (attach_at v t q0) = Some qn"
    "cells s' = (cells s)(k \<mapsto> new_leaf v (attach_at v t q0), attach_at v t q0 \<mapsto> hang v k qn)"
  shows "is_tree s' par (Ptr a) (insert_spec k v t)"
  using assms
proof (induction t arbitrary: par a q0)
  case Leaf
  then show ?case by simp
next
  case (Node l e r)
  from Node.prems(1) obtain w n where n: "e = (a, w)" "cells s a = Some n" "data_f n = w"
    "parent_f n = par" "is_tree s (Ptr a) (left_f n) l" "is_tree s (Ptr a) (right_f n) r"
    by (cases e) (auto split: option.splits)
  from Node.prems(2) have d: "distinct (map fst (inorder l))" "distinct (map fst (inorder r))"
    "a \<notin> fst ` set_tree l" "a \<notin> fst ` set_tree r" "fst ` set_tree l \<inter> fst ` set_tree r = {}"
    by (auto simp: n(1))
  from Node.prems(3) have k: "k \<noteq> a" "k \<notin> fst ` set_tree l" "k \<notin> fst ` set_tree r"
    by (auto simp: n(1))
  let ?q = "attach_at v \<langle>l, e, r\<rangle> q0"
  show ?case
  proof (cases "v < w")
    case True
    then have q: "?q = attach_at v l a" by (simp add: n(1))
    have fr: "is_tree s' (Ptr a) (right_f n) r"
    proof (rule is_tree_frame[OF n(6)], rule ballI)
      fix x assume x: "x \<in> fst ` set_tree r"
      have "?q \<noteq> x"
      proof (cases "l = Leaf")
        case True with q x d(4) show ?thesis by auto
      next
        case False from attach_at_in[OF this, of v a] q x d(5) show ?thesis by auto
      qed
      with x k(3) show "cells s' x = cells s x" by (auto simp: Node.prems(5))
    qed
    show ?thesis
    proof (cases "l = Leaf")
      case Leaf: True
      then have qa: "?q = a" using q by simp
      with Node.prems(4) n(2) have qn: "qn = n" by simp
      from Leaf n(5) have ln: "left_f n = Null" by simp
      have ca: "cells s' a = Some (n\<lparr>left_f := Ptr k\<rparr>)"
        using True n(3) by (simp add: Node.prems(5) qa qn hang_def)
      have ck: "cells s' k = Some (new_leaf v a)"
        using k(1) by (simp add: Node.prems(5) qa)
      show ?thesis
        using True Leaf ca ck fr n(3,4) by (simp add: n(1) new_leaf_def)
    next
      case False
      with n(5) obtain la where la: "left_f n = Ptr la" by (cases "left_f n") auto
      with n(5) have tl: "is_tree s (Ptr a) (Ptr la) l" by simp
      from attach_at_in[OF False, of v a] d(3) q have qa: "?q \<noteq> a" by metis
      have ca: "cells s' a = Some n" using qa k(1) n(2) by (simp add: Node.prems(5))
      have "is_tree s' (Ptr a) (Ptr la) (insert_spec k v l)"
        using Node.prems(4,5) unfolding q by (rule Node.IH(1)[OF tl d(1) k(2)])
      then show ?thesis
        using True ca fr n(3,4) la by (simp add: n(1))
    qed
  next
    case False
    then have q: "?q = attach_at v r a" by (simp add: n(1))
    have fr: "is_tree s' (Ptr a) (left_f n) l"
    proof (rule is_tree_frame[OF n(5)], rule ballI)
      fix x assume x: "x \<in> fst ` set_tree l"
      have "?q \<noteq> x"
      proof (cases "r = Leaf")
        case True with q x d(3) show ?thesis by auto
      next
        case False from attach_at_in[OF this, of v a] q x d(5) show ?thesis by auto
      qed
      with x k(2) show "cells s' x = cells s x" by (auto simp: Node.prems(5))
    qed
    show ?thesis
    proof (cases "r = Leaf")
      case Leaf: True
      then have qa: "?q = a" using q by simp
      with Node.prems(4) n(2) have qn: "qn = n" by simp
      from Leaf n(6) have ln: "right_f n = Null" by simp
      have ca: "cells s' a = Some (n\<lparr>right_f := Ptr k\<rparr>)"
        using False n(3) by (simp add: Node.prems(5) qa qn hang_def)
      have ck: "cells s' k = Some (new_leaf v a)"
        using k(1) by (simp add: Node.prems(5) qa)
      show ?thesis
        using False Leaf ca ck fr n(3,4) by (simp add: n(1) new_leaf_def)
    next
      case nl: False
      with n(6) obtain ra where ra: "right_f n = Ptr ra" by (cases "right_f n") auto
      with n(6) have tr: "is_tree s (Ptr a) (Ptr ra) r" by simp
      from attach_at_in[OF nl, of v a] d(4) q have qa: "?q \<noteq> a" by metis
      have ca: "cells s' a = Some n" using qa k(1) n(2) by (simp add: Node.prems(5))
      have "is_tree s' (Ptr a) (Ptr ra) (insert_spec k v r)"
        using Node.prems(4,5) unfolding q by (rule Node.IH(2)[OF tr d(2) k(3)])
      then show ?thesis
        using False ca fr n(3,4) ra by (simp add: n(1))
    qed
  qed
qed

lemmas wr_defs = wr_data_def wr_parent_def wr_left_def wr_right_def wr_def

lemma insert_BST_repr:
  assumes "repr b s t"
  shows "\<exists>s'. insert_BST v b s = Some ((Ptr (fresh s), True), b\<lparr>size_f := size_f b + 1\<rparr>, s') \<and>
          repr (b\<lparr>size_f := size_f b + 1\<rparr>) s' (insert_spec (fresh s) v t) \<and>
          data_of s' (Ptr (fresh s)) = Some v \<and>
          left_of s' (Ptr (fresh s)) = Some Null \<and> right_of s' (Ptr (fresh s)) = Some Null"
proof -
  from assms obtain r sn where r: "root_f b = Ptr r" "cells s r = Some sn" "parent_f sn = Null"
    "right_f sn = Null" "is_tree s (Ptr r) (left_f sn) t" "r \<notin> fst ` set_tree t"
    "distinct (map fst (inorder t))" "r < fresh s" "\<forall>a \<in> fst ` set_tree t. a < fresh s"
    by (rule reprE)
  let ?k = "fresh s"
  let ?q = "attach_at v t r"
  let ?b = "b\<lparr>size_f := size_f b + 1\<rparr>"
  have loop: "insert_loop s v (left_f sn) (Ptr r) = Some (Ptr ?q)"
    by (rule insert_loop_attach[OF r(5)])
  from r(8,9) have k: "?k \<noteq> r" "?k \<notin> fst ` set_tree t" by auto
  show ?thesis
  proof (cases "t = Leaf")
    case True
    let ?s = "s\<lparr>cells := (cells s)(?k \<mapsto> new_leaf v r, r \<mapsto> sn\<lparr>left_f := Ptr ?k\<rparr>),
                 fresh := Suc ?k\<rparr>"
    have run: "insert_BST v b s = Some ((Ptr ?k, True), ?b, ?s)"
      using True r(1-4) loop k(1)
      by (simp add: insert_BST_def alloc_node_def wr_defs field_Ptr new_leaf_def)
    have "repr ?b ?s (insert_spec ?k v t)"
      using True r k by (simp add: repr_def new_leaf_def)
    with run show ?thesis by (simp add: field_Ptr new_leaf_def k)
  next
    case False
    from attach_at_in[OF False] have qin: "?q \<in> fst ` set_tree t" .
    with r(6) k(2) have q: "?q \<noteq> r" "?q \<noteq> ?k" by metis+
    from qin is_tree_parent[OF r(5)] obtain qn q' where qn: "cells s ?q = Some qn" "parent_f qn = Ptr q'"
      by force
    let ?s = "s\<lparr>cells := (cells s)(?k \<mapsto> new_leaf v ?q, ?q \<mapsto> hang v ?k qn), fresh := Suc ?k\<rparr>"
    have run: "insert_BST v b s = Some ((Ptr ?k, True), ?b, ?s)"
      using r(1-4) loop k(1) q qn
      by (simp add: insert_BST_def alloc_node_def wr_defs field_Ptr new_leaf_def hang_def)
    from False r(5) obtain a where a: "left_f sn = Ptr a" by (cases "left_f sn") auto
    with r(5) have ta: "is_tree s (Ptr r) (Ptr a) t" by simp
    have "is_tree ?s (Ptr r) (Ptr a) (insert_spec ?k v t)"
      by (rule is_tree_insert[OF ta r(7) k(2) qn(1)]) simp
    moreover have "cells ?s r = Some sn" using q(1) k(1) r(2) by simp
    ultimately have "repr ?b ?s (insert_spec ?k v t)"
      using r k a distinct_insert_spec[OF k(2) r(7), of v]
      by (auto simp: repr_def set_tree_insert_spec simp del: set_inorder)
    with run show ?thesis using q by (simp add: field_Ptr new_leaf_def)
  qed
qed

section \<open>The tree invariant under insertion\<close>

lemma tree_inv_sorted: "tree_inv t \<Longrightarrow> sorted (inorder t)"
  by (induction t) (auto simp: sorted_append intro: order_trans)

lemma values_insert_spec:
  "set_tree (values_of (insert_spec k v t)) = insert v (set_tree (values_of t))"
  by (simp add: values_of_def tree.set_map set_tree_insert_spec)

lemma tree_inv_insert_spec:
  "tree_inv (values_of t) \<Longrightarrow> tree_inv (values_of (insert_spec k v t))"
proof (induction t)
  case Leaf
  then show ?case by (simp add: values_of_def)
next
  case (Node l e r)
  obtain a w where e: "e = (a, w)" by (cases e)
  from Node.prems have inv: "\<forall>x \<in> set_tree (values_of l). x \<le> w"
    "\<forall>x \<in> set_tree (values_of r). w \<le> x" "tree_inv (values_of l)" "tree_inv (values_of r)"
    by (simp_all add: values_of_def e)
  show ?case
  proof (cases "v < w")
    case True
    have "\<forall>x \<in> set_tree (values_of (insert_spec k v l)). x \<le> w"
      using inv(1) True by (simp add: values_insert_spec)
    with Node.IH(1)[OF inv(3)] inv(2,4) True show ?thesis
      by (simp add: e values_of_def)
  next
    case False
    have "\<forall>x \<in> set_tree (values_of (insert_spec k v r)). w \<le> x"
      using inv(2) False by (simp add: values_insert_spec)
    with Node.IH(2)[OF inv(4)] inv(1,3) False show ?thesis
      by (simp add: e values_of_def)
  qed
qed

lemma mset_insert_spec:
  "mset_tree (values_of (insert_spec k v t)) = add_mset v (mset_tree (values_of t))"
  by (induction t) (auto simp: values_of_def)

lemma BST_new_repr: "BST_new empty_store = (b, s) \<Longrightarrow> repr b s Leaf \<and> size_f b = 0"
  by (auto simp: BST_new_def alloc_node_def empty_store_def repr_def)

lemma insert_range_repr:
  assumes "repr b s t" "tree_inv (values_of t)"
  shows "\<exists>b' s' t'. insert_range vs b s = Some (b', s') \<and> repr b' s' t' \<and>
           tree_inv (values_of t') \<and>
           mset_tree (values_of t') = mset_tree (values_of t) + mset vs \<and>
           size t' = size t + length vs \<and>
           size_f b' = size_f b + of_nat (length vs)"
  using assms
proof (induction vs arbitrary: b s t)
  case Nil
  then show ?case by auto
next
  case (Cons v vs)
  let ?b = "b\<lparr>size_f := size_f b + 1\<rparr>"
  let ?t = "insert_spec (fresh s) v t"
  from insert_BST_repr[OF Cons.prems(1), of v] obtain s1 where
    s1: "insert_BST v b s = Some ((Ptr (fresh s), True), ?b, s1)" "repr ?b s1 ?t"
    by blast
  have inv: "tree_inv (values_of ?t)" by (rule tree_inv_insert_spec[OF Cons.prems(2)])
  from Cons.IH[OF s1(2) inv] obtain b' s' t' where
    r: "insert_range vs ?b s1 = Some (b', s')" "repr b' s' t'" "tree_inv (values_of t')"
    "mset_tree (values_of t') = mset_tree (values_of ?t) + mset vs"
    "size t' = size ?t + length vs" "size_f b' = size_f ?b + of_nat (length vs)"
    by blast
  have sz: "size ?t = Suc (size t)"
    by (induction t) auto
  have "insert_range (v # vs) b s = Some (b', s')" using s1(1) r(1) by simp
  moreover have "mset_tree (values_of t') = mset_tree (values_of t) + mset (v # vs)"
    using r(4) by (simp add: mset_insert_spec)
  moreover have "size t' = size t + length (v # vs)" using r(5) sz by simp
  moreover have "size_f b' = size_f b + of_nat (length (v # vs))" using r(6) by simp
  ultimately show ?case using r(2,3) by blast
qed

lemma inorder_values: "inorder (values_of t) = map snd (inorder t)"
  by (simp add: values_of_def inorder_map)

section \<open>Deletion on trees\<close>

lemma inorder_graft: "inorder (graft l r) = inorder l @ inorder r"
  by (induction r) auto

lemma set_tree_graft: "set_tree (graft l r) = set_tree l \<union> set_tree r"
  by (induction r) auto

lemma mset_tree_graft: "mset_tree (graft l r) = mset_tree l + mset_tree r"
  by (induction r) auto

lemma map_tree_graft: "map_tree f (graft l r) = graft (map_tree f l) (map_tree f r)"
  by (induction r) auto

lemma tree_inv_graft:
  "tree_inv l \<Longrightarrow> tree_inv r \<Longrightarrow> \<forall>x \<in> set_tree l. \<forall>y \<in> set_tree r. x \<le> y
     \<Longrightarrow> tree_inv (graft l r)"
  by (induction r) (auto simp: set_tree_graft)

lemma inorder_delete_spec:
  "distinct (map fst (inorder t)) \<Longrightarrow>
   inorder (delete_spec x t) = filter (\<lambda>e. fst e \<noteq> x) (inorder t)"
proof (induction t)
  case Leaf
  then show ?case by simp
next
  case (Node l e r)
  obtain a v where e: "e = (a, v)" by (cases e)
  from Node.prems have d: "distinct (map fst (inorder l))" "distinct (map fst (inorder r))"
    "a \<notin> fst ` set (inorder l)" "a \<notin> fst ` set (inorder r)"
    by (auto simp: e)
  show ?case
  proof (cases "x = a")
    case True
    have "filter (\<lambda>e. fst e \<noteq> a) (inorder l) = inorder l"
      "filter (\<lambda>e. fst e \<noteq> a) (inorder r) = inorder r"
      using d(3,4) by (auto simp: filter_id_conv)
    with True show ?thesis by (simp add: e inorder_graft)
  next
    case False
    with Node.IH(1)[OF d(1)] Node.IH(2)[OF d(2)] show ?thesis by (simp add: e)
  qed
qed

lemma set_tree_delete_spec:
  "distinct (map fst (inorder t)) \<Longrightarrow> set_tree (delete_spec x t) = {e \<in> set_tree t. fst e \<noteq> x}"
  using inorder_delete_spec[of t x] set_inorder[of "delete_spec x t"] set_inorder[of t]
  by (metis set_filter)

lemma distinct_delete_spec:
  "distinct (map fst (inorder t)) \<Longrightarrow> distinct (map fst (inorder (delete_spec x t)))"
  by (simp add: inorder_delete_spec distinct_map_filter)

lemma delete_spec_notin: "x \<notin> fst ` set_tree t \<Longrightarrow> delete_spec x t = t"
  by (induction t) (auto simp: image_Un)

lemma values_delete_subset:
  "set_tree (values_of (delete_spec x t)) \<subseteq> set_tree (values_of t)"
proof (induction t)
  case Leaf
  then show ?case by simp
next
  case (Node l e r)
  obtain a v where e: "e = (a, v)" by (cases e)
  from Node.IH show ?case
    by (auto simp: e values_of_def map_tree_graft set_tree_graft)
qed

lemma tree_inv_delete_spec:
  "tree_inv (values_of t) \<Longrightarrow> tree_inv (values_of (delete_spec x t))"
proof (induction t)
  case Leaf
  then show ?case by simp
next
  case (Node l e r)
  obtain a v where e: "e = (a, v)" by (cases e)
  from Node.prems have inv: "\<forall>y \<in> set_tree (values_of l). y \<le> v"
    "\<forall>y \<in> set_tree (values_of r). v \<le> y" "tree_inv (values_of l)" "tree_inv (values_of r)"
    by (simp_all add: values_of_def e)
  show ?case
  proof (cases "x = a")
    case True
    have "\<forall>y \<in> set_tree (values_of l). \<forall>z \<in> set_tree (values_of r). y \<le> z"
      using inv(1,2) by (meson order_trans)
    from tree_inv_graft[OF inv(3,4) this] True show ?thesis
      by (simp add: e values_of_def map_tree_graft)
  next
    case False
    have "\<forall>y \<in> set_tree (values_of (delete_spec x l)). y \<le> v"
      "\<forall>y \<in> set_tree (values_of (delete_spec x r)). v \<le> y"
      using inv(1,2) values_delete_subset[of x l] values_delete_subset[of x r] by auto
    with Node.IH(1)[OF inv(3)] Node.IH(2)[OF inv(4)] False show ?thesis
      by (simp add: e values_of_def)
  qed
qed

lemma mset_delete_spec:
  "distinct (map fst (inorder t)) \<Longrightarrow> (x, w) \<in> set_tree t \<Longrightarrow>
   mset_tree (values_of (delete_spec x t)) = mset_tree (values_of t) - {#w#}"
proof (induction t)
  case Leaf
  then show ?case by simp
next
  case (Node l e r)
  obtain a v where e: "e = (a, v)" by (cases e)
  from Node.prems(1) have d: "distinct (map fst (inorder l))" "distinct (map fst (inorder r))"
    "a \<notin> fst ` set_tree l" "a \<notin> fst ` set_tree r" "fst ` set_tree l \<inter> fst ` set_tree r = {}"
    by (auto simp: e)
  from Node.prems(2) consider (M) "x = a" "w = v" | (L) "(x, w) \<in> set_tree l" | (R) "(x, w) \<in> set_tree r"
    by (auto simp: e)
  then show ?case
  proof cases
    case M
    then show ?thesis by (simp add: e values_of_def map_tree_graft mset_tree_graft)
  next
    case L
    then have xl: "x \<in> fst ` set_tree l" by force
    with d have "x \<noteq> a" "x \<notin> fst ` set_tree r" by auto
    moreover have "w \<in># mset_tree (values_of l)"
      using L by (force simp: values_of_def tree.set_map)
    ultimately show ?thesis using Node.IH(1)[OF d(1) L]
      by (simp add: e delete_spec_notin values_of_def)
  next
    case R
    then have xr: "x \<in> fst ` set_tree r" by force
    with d have "x \<noteq> a" "x \<notin> fst ` set_tree l" by auto
    moreover have "w \<in># mset_tree (values_of r)"
      using R by (force simp: values_of_def tree.set_map)
    ultimately show ?thesis using Node.IH(2)[OF d(2) R]
      by (simp add: e delete_spec_notin values_of_def)
  qed
qed

section \<open>Deletion in the store\<close>

lemma is_tree_root: "is_tree s par p t \<Longrightarrow> p = root_ptr t"
  by (cases t) auto

lemma root_ptr_graft: "r \<noteq> Leaf \<Longrightarrow> root_ptr (graft l r) = root_ptr r"
  by (cases r) auto

lemma root_in: "is_tree s par (Ptr a) t \<Longrightarrow> a \<in> fst ` set_tree t"
  by (cases t) (auto split: option.splits)

lemma hd_inorder_in: "t \<noteq> Leaf \<Longrightarrow> fst (hd (inorder t)) \<in> fst ` set_tree t"
  by (metis hd_in_set imageI inorder_nonempty set_inorder)

lemma is_tree_frameI:
  assumes "is_tree s par p t" "\<And>y. y \<in> fst ` set_tree t \<Longrightarrow> cells s' y = cells s y"
  shows "is_tree s' par p t"
  using assms by (auto intro: is_tree_frame)

lemma reparent:
  assumes "is_tree s par (Ptr c) t" "distinct (map fst (inorder t))"
    "cells s c = Some cn" "cells s' c = Some (cn\<lparr>parent_f := par'\<rparr>)"
    "\<forall>y \<in> fst ` set_tree t. y \<noteq> c \<longrightarrow> cells s' y = cells s y"
  shows "is_tree s' par' (Ptr c) t"
proof -
  from assms(1) obtain l v r n where t: "t = Node l (c, v) r" "cells s c = Some n" "data_f n = v"
    "is_tree s (Ptr c) (left_f n) l" "is_tree s (Ptr c) (right_f n) r"
    by (rule is_tree_PtrE)
  from assms(2) have d: "c \<notin> fst ` set_tree l" "c \<notin> fst ` set_tree r"
    by (auto simp: t(1))
  have "is_tree s' (Ptr c) (left_f n) l"
    by (rule is_tree_frame[OF t(4)]) (use assms(5) d(1) in \<open>auto simp: t(1)\<close>)
  moreover have "is_tree s' (Ptr c) (right_f n) r"
    by (rule is_tree_frame[OF t(5)]) (use assms(5) d(2) in \<open>auto simp: t(1)\<close>)
  ultimately show ?thesis using t(2,3) assms(3,4) by (simp add: t(1))
qed

lemma is_tree_graft:
  assumes "is_tree s par (Ptr ra) r" "is_tree s q (Ptr la) l"
    "distinct (map fst (inorder r))" "distinct (map fst (inorder l))"
    "fst ` set_tree l \<inter> fst ` set_tree r = {}"
    "cells s (fst (hd (inorder r))) = Some tn" "cells s la = Some ln"
    "cells s' = (cells s)(fst (hd (inorder r)) \<mapsto> tn\<lparr>left_f := Ptr la\<rparr>,
                          la \<mapsto> ln\<lparr>parent_f := Ptr (fst (hd (inorder r)))\<rparr>)"
  shows "is_tree s' par (Ptr ra) (graft l r)"
  using assms(1,3,5,6,8)
proof (induction r arbitrary: par ra)
  case Leaf
  then show ?case by simp
next
  case (Node rl e rr)
  from Node.prems(1) obtain w n where n: "e = (ra, w)" "cells s ra = Some n" "data_f n = w"
    "parent_f n = par" "is_tree s (Ptr ra) (left_f n) rl" "is_tree s (Ptr ra) (right_f n) rr"
    by (cases e) (auto split: option.splits)
  from Node.prems(2) have d: "distinct (map fst (inorder rl))" "distinct (map fst (inorder rr))"
    "ra \<notin> fst ` set_tree rl" "ra \<notin> fst ` set_tree rr" "fst ` set_tree rl \<inter> fst ` set_tree rr = {}"
    by (auto simp: n(1))
  from Node.prems(3) have dl: "ra \<notin> fst ` set_tree l" "fst ` set_tree l \<inter> fst ` set_tree rl = {}"
    "fst ` set_tree l \<inter> fst ` set_tree rr = {}"
    by (auto simp: n(1))
  have lain: "la \<in> fst ` set_tree l" by (rule root_in[OF assms(2)])
  with dl have la: "la \<noteq> ra" "la \<notin> fst ` set_tree rl" "la \<notin> fst ` set_tree rr" by auto
  let ?tm = "fst (hd (inorder \<langle>rl, e, rr\<rangle>))"
  show ?case
  proof (cases "rl = Leaf")
    case True
    then have tm: "?tm = ra" by (simp add: n(1))
    note cs = Node.prems(5)[unfolded tm]
    from Node.prems(4)[unfolded tm] n(2) have tn: "tn = n" by simp
    from True n(5) have "left_f n = Null" by simp
    have cra: "cells s' ra = Some (n\<lparr>left_f := Ptr la\<rparr>)"
      using la(1) by (simp add: cs tn)
    have cla: "cells s' la = Some (ln\<lparr>parent_f := Ptr ra\<rparr>)"
      by (simp add: cs)
    have "is_tree s' (Ptr ra) (Ptr la) l"
    proof (rule reparent[OF assms(2,4,7) cla], intro ballI impI)
      fix y assume y: "y \<in> fst ` set_tree l" "y \<noteq> la"
      with dl(1) have "y \<noteq> ra" by blast
      with y(2) show "cells s' y = cells s y" by (simp add: cs)
    qed
    moreover have "is_tree s' (Ptr ra) (right_f n) rr"
    proof (rule is_tree_frameI[OF n(6)])
      fix y assume "y \<in> fst ` set_tree rr"
      with la(3) d(4) have "y \<noteq> la" "y \<noteq> ra" by blast+
      then show "cells s' y = cells s y" by (simp add: cs)
    qed
    ultimately show ?thesis using True cra n(3,4) by (simp add: n(1))
  next
    case False
    then have tm: "?tm = fst (hd (inorder rl))"
      using inorder_nonempty[OF False] by (simp add: n(1))
    note cs = Node.prems(5)[unfolded tm]
    from hd_inorder_in[OF False] have tmin: "fst (hd (inorder rl)) \<in> fst ` set_tree rl" .
    with d have tmne: "fst (hd (inorder rl)) \<noteq> ra" "fst (hd (inorder rl)) \<notin> fst ` set_tree rr"
      by auto
    from False n(5) obtain rla where rla: "left_f n = Ptr rla" by (cases "left_f n") auto
    with n(5) have trl: "is_tree s (Ptr ra) (Ptr rla) rl" by simp
    have "is_tree s' (Ptr ra) (Ptr rla) (graft l rl)"
      using Node.prems(4)[unfolded tm] cs by (rule Node.IH(1)[OF trl d(1) dl(2)])
    moreover have "is_tree s' (Ptr ra) (right_f n) rr"
    proof (rule is_tree_frameI[OF n(6)])
      fix y assume "y \<in> fst ` set_tree rr"
      with la(3) tmne(2) have "y \<noteq> la" "y \<noteq> fst (hd (inorder rl))" by blast+
      then show "cells s' y = cells s y" by (simp add: cs)
    qed
    moreover have "cells s' ra = Some n"
      using la(1) tmne(1) n(2) by (simp add: cs)
    ultimately show ?thesis using n(3,4) rla by (simp add: n(1))
  qed
qed

lemma graft_Leaf_left [simp]: "graft Leaf r = r"
  by (induction r) auto

lemma relink_right:
  assumes "cells s a = Some n" "parent_f n = Ptr p" "right_f n = Ptr c" "cells s p = Some pn"
    "cells s c = Some cn" "p \<noteq> a" "c \<noteq> a" "c \<noteq> p"
  shows "relink s (Ptr a) right_of =
    Some (s\<lparr>cells := (cells s)(p \<mapsto> slot (left_f pn = Ptr a) pn (Ptr c), c \<mapsto> cn\<lparr>parent_f := Ptr p\<rparr>)\<rparr>)"
  using assms by (auto simp: relink_def field_Ptr wr_defs slot_def)

lemma relink_left:
  assumes "cells s a = Some n" "parent_f n = Ptr p" "left_f n = Ptr c" "cells s p = Some pn"
    "cells s c = Some cn" "p \<noteq> a" "c \<noteq> a" "c \<noteq> p"
  shows "relink s (Ptr a) left_of =
    Some (s\<lparr>cells := (cells s)(p \<mapsto> slot (left_f pn = Ptr a) pn (Ptr c), c \<mapsto> cn\<lparr>parent_f := Ptr p\<rparr>)\<rparr>)"
  using assms by (auto simp: relink_def field_Ptr wr_defs slot_def)

lemma DeleteNode_root:
  assumes T: "is_tree s (Ptr p) (Ptr a) (Node l (a, v) r)"
    and D: "distinct (map fst (inorder (Node l (a, v) r)))"
    and P: "p \<notin> fst ` set_tree (Node l (a, v) r)"
    and PN: "cells s p = Some pn"
    and SL: "lf = (left_f pn = Ptr a)"
  shows "\<exists>s'. DeleteNode s (Ptr a) = Some s' \<and>
           is_tree s' (Ptr p) (root_ptr (graft l r)) (graft l r) \<and>
           cells s' p = Some (slot lf pn (root_ptr (graft l r))) \<and>
           (\<forall>y. y \<notin> fst ` set_tree (Node l (a, v) r) \<longrightarrow> y \<noteq> p \<longrightarrow> cells s' y = cells s y) \<and>
           fresh s' = fresh s"
proof -
  from T obtain n where n: "cells s a = Some n" "parent_f n = Ptr p"
    "is_tree s (Ptr a) (left_f n) l" "is_tree s (Ptr a) (right_f n) r"
    by (auto split: option.splits)
  from D have d: "distinct (map fst (inorder l))" "distinct (map fst (inorder r))"
    "a \<notin> fst ` set_tree l" "a \<notin> fst ` set_tree r" "fst ` set_tree l \<inter> fst ` set_tree r = {}"
    by auto
  from P have p: "p \<noteq> a" "p \<notin> fst ` set_tree l" "p \<notin> fst ` set_tree r" by auto
  show ?thesis
  proof (cases "left_f n")
    case lN: Null
    with n(3) have l: "l = Leaf" by simp
    show ?thesis
    proof (cases "right_f n")
      case rN: Null
      with n(4) have r: "r = Leaf" by simp
      let ?s = "s\<lparr>cells := (cells s)(p \<mapsto> slot lf pn Null, a := None)\<rparr>"
      have "DeleteNode s (Ptr a) = Some ?s"
        using n(1,2) lN rN PN p(1) SL
        by (auto simp: DeleteNode_def field_Ptr wr_defs delete_node_def slot_def)
      then show ?thesis using l r p(1) by auto
    next
      case (Ptr ra)
      with n(4) have tr: "is_tree s (Ptr a) (Ptr ra) r" by simp
      then obtain rn where rn: "cells s ra = Some rn" by (rule is_tree_PtrE)
      have rain: "ra \<in> fst ` set_tree r" by (rule root_in[OF tr])
      with d p have ra: "ra \<noteq> a" "ra \<noteq> p" by blast+
      from tr have rne: "r \<noteq> Leaf" by auto
      let ?s1 = "s\<lparr>cells := (cells s)(p \<mapsto> slot lf pn (Ptr ra), ra \<mapsto> rn\<lparr>parent_f := Ptr p\<rparr>)\<rparr>"
      let ?s = "?s1\<lparr>cells := (cells ?s1)(a := None)\<rparr>"
      have rl: "relink s (Ptr a) right_of = Some ?s1"
        using relink_right[OF n(1,2) Ptr PN rn p(1) ra] by (simp add: SL)
      have run: "DeleteNode s (Ptr a) = Some ?s"
        using n(1) lN Ptr rl ra p(1)
        by (simp add: DeleteNode_def field_Ptr delete_node_def)
      have "is_tree ?s (Ptr p) (Ptr ra) r"
      proof (rule reparent[OF tr d(2) rn], goal_cases)
        case 1 show ?case using ra by simp
      next
        case 2 show ?case
        proof (intro ballI impI)
          fix y assume y: "y \<in> fst ` set_tree r" "y \<noteq> ra"
          with d(4) p(3) have "y \<noteq> a" "y \<noteq> p" by blast+
          with y(2) show "cells ?s y = cells s y" by simp
        qed
      qed
      moreover have "root_ptr (graft l r) = Ptr ra"
        using is_tree_root[OF tr] root_ptr_graft[OF rne] by simp
      moreover have "cells ?s p = Some (slot lf pn (Ptr ra))" using p(1) ra by simp
      moreover have "\<forall>y. y \<notin> fst ` set_tree (Node l (a, v) r) \<longrightarrow> y \<noteq> p \<longrightarrow> cells ?s y = cells s y"
        using rain by auto
      ultimately show ?thesis using run l by simp
    qed
  next
    case (Ptr la)
    with n(3) have tl: "is_tree s (Ptr a) (Ptr la) l" by simp
    then obtain ln where ln: "cells s la = Some ln" by (rule is_tree_PtrE)
    have lain: "la \<in> fst ` set_tree l" by (rule root_in[OF tl])
    with d p have la: "la \<noteq> a" "la \<noteq> p" "la \<notin> fst ` set_tree r" by blast+
    show ?thesis
    proof (cases "right_f n")
      case rN: Null
      with n(4) have r: "r = Leaf" by simp
      let ?s1 = "s\<lparr>cells := (cells s)(p \<mapsto> slot lf pn (Ptr la), la \<mapsto> ln\<lparr>parent_f := Ptr p\<rparr>)\<rparr>"
      let ?s = "?s1\<lparr>cells := (cells ?s1)(a := None)\<rparr>"
      have rl: "relink s (Ptr a) left_of = Some ?s1"
        using relink_left[OF n(1,2) Ptr PN ln p(1) la(1,2)] by (simp add: SL)
      have run: "DeleteNode s (Ptr a) = Some ?s"
        using n(1) rN Ptr rl la p(1)
        by (simp add: DeleteNode_def field_Ptr delete_node_def)
      have "is_tree ?s (Ptr p) (Ptr la) l"
      proof (rule reparent[OF tl d(1) ln], goal_cases)
        case 1 show ?case using la by simp
      next
        case 2 show ?case
        proof (intro ballI impI)
          fix y assume y: "y \<in> fst ` set_tree l" "y \<noteq> la"
          with d(3) p(2) have "y \<noteq> a" "y \<noteq> p" by blast+
          with y(2) show "cells ?s y = cells s y" by simp
        qed
      qed
      moreover have "cells ?s p = Some (slot lf pn (Ptr la))" using p(1) la by simp
      moreover have "\<forall>y. y \<notin> fst ` set_tree (Node l (a, v) r) \<longrightarrow> y \<noteq> p \<longrightarrow> cells ?s y = cells s y"
        using lain by auto
      ultimately show ?thesis using run r is_tree_root[OF tl] by simp
    next
      case rP: (Ptr ra)
      with n(4) have tr: "is_tree s (Ptr a) (Ptr ra) r" by simp
      then obtain rn where rn: "cells s ra = Some rn" by (rule is_tree_PtrE)
      have rain: "ra \<in> fst ` set_tree r" by (rule root_in[OF tr])
      with d p la have ra: "ra \<noteq> a" "ra \<noteq> p" "ra \<noteq> la" by blast+
      from tr have rne: "r \<noteq> Leaf" by auto
      let ?tm = "fst (hd (inorder r))"
      have tmin: "?tm \<in> fst ` set_tree r" by (rule hd_inorder_in[OF rne])
      with d p lain have tm: "?tm \<noteq> a" "?tm \<noteq> p" "?tm \<noteq> la" by blast+
      have dl: "Leftmost_from s (Ptr ra) = Some (Ptr ?tm)"
        using descend_left_hd[OF tr] by (simp add: Leftmost_from_def)
      let ?s1 = "s\<lparr>cells := (cells s)(p \<mapsto> slot lf pn (Ptr ra), ra \<mapsto> rn\<lparr>parent_f := Ptr p\<rparr>)\<rparr>"
      have rl: "relink s (Ptr a) right_of = Some ?s1"
        using relink_right[OF n(1,2) rP PN rn p(1) ra(1,2)] by (simp add: SL)
      have t1r: "is_tree ?s1 (Ptr p) (Ptr ra) r"
      proof (rule reparent[OF tr d(2) rn], goal_cases)
        case 1 show ?case using ra by simp
      next
        case 2 show ?case
        proof (intro ballI impI)
          fix y assume y: "y \<in> fst ` set_tree r" "y \<noteq> ra"
          with p(3) have "y \<noteq> p" by blast
          with y(2) show "cells ?s1 y = cells s y" by simp
        qed
      qed
      have t1l: "is_tree ?s1 (Ptr a) (Ptr la) l"
      proof (rule is_tree_frameI[OF tl])
        fix y assume "y \<in> fst ` set_tree l"
        with p(2) rain d(5) have "y \<noteq> p" "y \<noteq> ra" by blast+
        then show "cells ?s1 y = cells s y" by simp
      qed
      from is_tree_cell[OF t1r] tmin obtain tn where tn: "cells ?s1 ?tm = Some tn" by force
      have l1: "cells ?s1 la = Some ln" using la ra ln by simp
      let ?s3 = "?s1\<lparr>cells := (cells ?s1)(?tm \<mapsto> tn\<lparr>left_f := Ptr la\<rparr>, la \<mapsto> ln\<lparr>parent_f := Ptr ?tm\<rparr>)\<rparr>"
      let ?s = "?s3\<lparr>cells := (cells ?s3)(a := None)\<rparr>"
      have a1: "cells ?s1 a = Some n" using p(1) ra(1) n(1) by simp
      have run: "DeleteNode s (Ptr a) = Some ?s"
        using n(1) Ptr rP rl dl a1 tn l1 tm la
        by (simp add: DeleteNode_def field_Ptr delete_node_def wr_defs)
      have t3: "is_tree ?s3 (Ptr p) (Ptr ra) (graft l r)"
        by (rule is_tree_graft[OF t1r t1l d(2,1) d(5) tn l1]) simp
      have "is_tree ?s (Ptr p) (Ptr ra) (graft l r)"
      proof (rule is_tree_frameI[OF t3])
        fix y assume "y \<in> fst ` set_tree (graft l r)"
        with d(3,4) have "y \<noteq> a" by (auto simp: set_tree_graft)
        then show "cells ?s y = cells ?s3 y" by simp
      qed
      moreover have "root_ptr (graft l r) = Ptr ra"
        using is_tree_root[OF tr] root_ptr_graft[OF rne] by simp
      moreover have "cells ?s p = Some (slot lf pn (Ptr ra))" using p(1) ra tm la by simp
      moreover have "\<forall>y. y \<notin> fst ` set_tree (Node l (a, v) r) \<longrightarrow> y \<noteq> p \<longrightarrow> cells ?s y = cells s y"
        using rain lain tmin by auto
      ultimately show ?thesis using run by simp
    qed
  qed
qed

lemma slot_same:
  "lf = (left_f pn = c) \<Longrightarrow> (\<not> lf \<longrightarrow> right_f pn = c) \<Longrightarrow> slot lf pn c = pn"
  by (auto simp: slot_def)

lemma DeleteNode_sub:
  assumes "is_tree s (Ptr p) (Ptr a) t" "distinct (map fst (inorder t))"
    "p \<notin> fst ` set_tree t" "cells s p = Some pn"
    "lf = (left_f pn = Ptr a)" "\<not> lf \<longrightarrow> right_f pn = Ptr a"
    "x \<in> fst ` set_tree t"
  shows "\<exists>s'. DeleteNode s (Ptr x) = Some s' \<and>
           is_tree s' (Ptr p) (root_ptr (delete_spec x t)) (delete_spec x t) \<and>
           cells s' p = Some (slot lf pn (root_ptr (delete_spec x t))) \<and>
           (\<forall>y. y \<notin> fst ` set_tree t \<longrightarrow> y \<noteq> p \<longrightarrow> cells s' y = cells s y) \<and>
           fresh s' = fresh s"
  using assms
proof (induction t arbitrary: p a pn lf)
  case Leaf
  then show ?case by simp
next
  case (Node l e r)
  from Node.prems(1) obtain v n where n: "e = (a, v)" "cells s a = Some n" "data_f n = v"
    "parent_f n = Ptr p" "is_tree s (Ptr a) (left_f n) l" "is_tree s (Ptr a) (right_f n) r"
    by (cases e) (auto split: option.splits)
  from Node.prems(2) have d: "distinct (map fst (inorder l))" "distinct (map fst (inorder r))"
    "a \<notin> fst ` set_tree l" "a \<notin> fst ` set_tree r" "fst ` set_tree l \<inter> fst ` set_tree r = {}"
    by (auto simp: n(1))
  from Node.prems(3) have p: "p \<noteq> a" "p \<notin> fst ` set_tree l" "p \<notin> fst ` set_tree r"
    by (auto simp: n(1))
  have same: "slot lf pn (Ptr a) = pn"
    by (rule slot_same[OF Node.prems(5,6)])
  from Node.prems(7) consider (M) "x = a" | (L) "x \<in> fst ` set_tree l" | (R) "x \<in> fst ` set_tree r"
    by (auto simp: n(1))
  then show ?case
  proof cases
    case M
    from DeleteNode_root[OF Node.prems(1)[unfolded n(1)] Node.prems(2)[unfolded n(1)]
        Node.prems(3)[unfolded n(1)] Node.prems(4,5)]
    show ?thesis by (simp add: M n(1))
  next
    case L
    with d have xa: "x \<noteq> a" "x \<notin> fst ` set_tree r" by blast+
    from L have "l \<noteq> Leaf" by auto
    with n(5) obtain la where la: "left_f n = Ptr la" by (cases "left_f n") auto
    with n(5) have tl: "is_tree s (Ptr a) (Ptr la) l" by simp
    have ds: "delete_spec x \<langle>l, e, r\<rangle> = \<langle>delete_spec x l, (a, v), r\<rangle>"
      using xa by (simp add: n(1) delete_spec_notin)
    from Node.IH(1)[OF tl d(1,3) n(2), of True] la L obtain s' where
      s': "DeleteNode s (Ptr x) = Some s'"
      "is_tree s' (Ptr a) (root_ptr (delete_spec x l)) (delete_spec x l)"
      "cells s' a = Some (slot True n (root_ptr (delete_spec x l)))"
      "\<forall>y. y \<notin> fst ` set_tree l \<longrightarrow> y \<noteq> a \<longrightarrow> cells s' y = cells s y"
      "fresh s' = fresh s"
      by auto
    have tr: "is_tree s' (Ptr a) (right_f n) r"
    proof (rule is_tree_frameI[OF n(6)])
      fix y assume "y \<in> fst ` set_tree r"
      with d(4,5) have "y \<notin> fst ` set_tree l" "y \<noteq> a" by blast+
      with s'(4) show "cells s' y = cells s y" by simp
    qed
    have cp: "cells s' p = Some pn" using s'(4) p Node.prems(4) by simp
    have fr: "\<forall>y. y \<notin> fst ` set_tree \<langle>l, e, r\<rangle> \<longrightarrow> y \<noteq> p \<longrightarrow> cells s' y = cells s y"
      using s'(4) by (simp add: n(1) image_Un)
    have "is_tree s' (Ptr p) (Ptr a) \<langle>delete_spec x l, (a, v), r\<rangle>"
      using s'(2,3) tr n(3,4) by (simp add: slot_def)
    with s'(1,5) cp fr same show ?thesis by (simp add: ds)
  next
    case R
    with d have xa: "x \<noteq> a" "x \<notin> fst ` set_tree l" by blast+
    from R have "r \<noteq> Leaf" by auto
    with n(6) obtain ra where ra: "right_f n = Ptr ra" by (cases "right_f n") auto
    with n(6) have tr: "is_tree s (Ptr a) (Ptr ra) r" by simp
    have "ra \<in> fst ` set_tree r" by (rule root_in[OF tr])
    with d(5) have "ra \<notin> fst ` set_tree l" by blast
    with n(5) have nl: "left_f n \<noteq> Ptr ra" by (auto dest: root_in)
    have ds: "delete_spec x \<langle>l, e, r\<rangle> = \<langle>l, (a, v), delete_spec x r\<rangle>"
      using xa by (simp add: n(1) delete_spec_notin)
    from Node.IH(2)[OF tr d(2,4) n(2), of False] ra nl R obtain s' where
      s': "DeleteNode s (Ptr x) = Some s'"
      "is_tree s' (Ptr a) (root_ptr (delete_spec x r)) (delete_spec x r)"
      "cells s' a = Some (slot False n (root_ptr (delete_spec x r)))"
      "\<forall>y. y \<notin> fst ` set_tree r \<longrightarrow> y \<noteq> a \<longrightarrow> cells s' y = cells s y"
      "fresh s' = fresh s"
      by auto
    have tl: "is_tree s' (Ptr a) (left_f n) l"
    proof (rule is_tree_frameI[OF n(5)])
      fix y assume "y \<in> fst ` set_tree l"
      with d(3,5) have "y \<notin> fst ` set_tree r" "y \<noteq> a" by blast+
      with s'(4) show "cells s' y = cells s y" by simp
    qed
    have cp: "cells s' p = Some pn" using s'(4) p Node.prems(4) by simp
    have fr: "\<forall>y. y \<notin> fst ` set_tree \<langle>l, e, r\<rangle> \<longrightarrow> y \<noteq> p \<longrightarrow> cells s' y = cells s y"
      using s'(4) by (simp add: n(1) image_Un)
    have "is_tree s' (Ptr p) (Ptr a) \<langle>l, (a, v), delete_spec x r\<rangle>"
      using s'(2,3) tl n(3,4) by (simp add: slot_def)
    with s'(1,5) cp fr same show ?thesis by (simp add: ds)
  qed
qed

lemma DeleteNode_repr:
  assumes "repr b s t" "x \<in> fst ` set_tree t"
  shows "\<exists>s'. DeleteNode s (Ptr x) = Some s' \<and> repr b s' (delete_spec x t)"
proof -
  from assms(1) obtain r sn where r: "root_f b = Ptr r" "cells s r = Some sn" "parent_f sn = Null"
    "right_f sn = Null" "is_tree s (Ptr r) (left_f sn) t" "r \<notin> fst ` set_tree t"
    "distinct (map fst (inorder t))" "r < fresh s" "\<forall>a \<in> fst ` set_tree t. a < fresh s"
    by (rule reprE)
  from assms(2) have "t \<noteq> Leaf" by auto
  with r(5) obtain a where a: "left_f sn = Ptr a" by (cases "left_f sn") auto
  with r(5) have ta: "is_tree s (Ptr r) (Ptr a) t" by simp
  from DeleteNode_sub[OF ta r(7,6,2), of True x] a assms(2) obtain s' where
    s': "DeleteNode s (Ptr x) = Some s'"
    "is_tree s' (Ptr r) (root_ptr (delete_spec x t)) (delete_spec x t)"
    "cells s' r = Some (slot True sn (root_ptr (delete_spec x t)))"
    "fresh s' = fresh s"
    by auto
  have sub: "fst ` set_tree (delete_spec x t) \<subseteq> fst ` set_tree t"
    by (auto simp: set_tree_delete_spec[OF r(7)])
  from sub r(6) have rn: "r \<notin> fst ` set_tree (delete_spec x t)" by blast
  from sub r(9) have bd: "\<forall>a \<in> fst ` set_tree (delete_spec x t). a < fresh s'"
    unfolding s'(4) by blast
  have "repr b s' (delete_spec x t)"
    using r(1,3,4,8) s' rn bd distinct_delete_spec[OF r(7), of x]
    by (simp add: repr_def slot_def del: set_inorder)
  with s'(1) show ?thesis by blast
qed

section \<open>Insertion, deletion and the in-order walk\<close>

text \<open>
  C1: for every sequence of values inserted into an empty tree, the in-order walk from
  begin() to end() returns, and visits exactly the inserted values in non-decreasing order.
\<close>

theorem C1_inorder_walk_sorted:
  "\<exists>b s ys. BST_of_list xs = Some (b, s) \<and> visit Inorder b s = Some ys \<and>
     sorted ys \<and> mset ys = mset xs"
proof -
  obtain b0 s0 where n: "BST_new (empty_store :: 'a store) = (b0, s0)" by (cases "BST_new (empty_store :: 'a store)")
  from BST_new_repr[OF n] have r0: "repr b0 s0 Leaf" by simp
  have "tree_inv (values_of (Leaf :: (nat \<times> 'a) tree))" by (simp add: values_of_def)
  from insert_range_repr[OF r0 this, of xs] obtain b s t where
    r: "insert_range xs b0 s0 = Some (b, s)" "repr b s t" "tree_inv (values_of t)"
    "mset_tree (values_of t) = mset_tree (values_of (Leaf :: (nat \<times> 'a) tree)) + mset xs"
    by blast
  have "BST_of_list xs = Some (b, s)" using n r(1) by (simp add: BST_of_list_def)
  moreover have "visit Inorder b s = Some (inorder (values_of t))"
    using visit_Inorder_repr[OF r(2)] by (simp add: inorder_values)
  moreover have "sorted (inorder (values_of t))" by (rule tree_inv_sorted[OF r(3)])
  moreover have "mset (inorder (values_of t)) = mset xs" using r(4) by (simp add: values_of_def)
  ultimately show ?thesis by blast
qed

text \<open>
  C9: insert(value) goes left exactly when the value is strictly less than the node's and
  right otherwise (\<open>insert_spec\<close>, so an equal value lands in the right subtree), hangs
  the new node as a leaf, adds one to size and returns the new node's cursor with true.
\<close>

theorem C9_insert_places_leaf:
  assumes "repr b s t"
  shows "\<exists>s'. insert_BST v b s = Some ((Ptr (fresh s), True), b\<lparr>size_f := size_f b + 1\<rparr>, s') \<and>
           repr (b\<lparr>size_f := size_f b + 1\<rparr>) s' (insert_spec (fresh s) v t) \<and>
           data_of s' (Ptr (fresh s)) = Some v \<and>
           left_of s' (Ptr (fresh s)) = Some Null \<and> right_of s' (Ptr (fresh s)) = Some Null \<and>
           size_BST (b\<lparr>size_f := size_f b + 1\<rparr>) = size_BST b + 1"
  using insert_BST_repr[OF assms, of v] by (simp add: size_BST_def)

theorem C9_insert_places_leaf_witness:
  "(case BST_of_list [2, 1 :: int] of
      None \<Rightarrow> False
    | Some (b, s) \<Rightarrow>
        repr b s \<langle>\<langle>\<langle>\<rangle>, (2, 1), \<langle>\<rangle>\<rangle>, (1, 2), \<langle>\<rangle>\<rangle> \<and>
        (\<exists>s'. insert_BST 2 b s = Some ((Ptr 3, True), b\<lparr>size_f := 3\<rparr>, s') \<and>
              repr (b\<lparr>size_f := 3\<rparr>) s' \<langle>\<langle>\<langle>\<rangle>, (2, 1), \<langle>\<rangle>\<rangle>, (1, 2), \<langle>\<langle>\<rangle>, (3, 2), \<langle>\<rangle>\<rangle>\<rangle> \<and>
              data_of s' (Ptr 3) = Some 2 \<and>
              left_of s' (Ptr 3) = Some Null \<and> right_of s' (Ptr 3) = Some Null))"
proof -
  have "case BST_of_list [2, 1 :: int] of None \<Rightarrow> False
        | Some (b, s) \<Rightarrow> repr b s \<langle>\<langle>\<langle>\<rangle>, (2, 1), \<langle>\<rangle>\<rangle>, (1, 2), \<langle>\<rangle>\<rangle> \<and> fresh s = 3 \<and> size_f b = 2"
    by code_simp
  then obtain b s where bs: "BST_of_list [2, 1 :: int] = Some (b, s)"
    "repr b s \<langle>\<langle>\<langle>\<rangle>, (2, 1), \<langle>\<rangle>\<rangle>, (1, 2), \<langle>\<rangle>\<rangle>" "fresh s = 3" "size_f b = 2"
    by (auto split: option.splits)
  from C9_insert_places_leaf[OF bs(2), of 2] bs show ?thesis by auto
qed

text \<open>
  C6: the tree invariant is kept by every insert and by every DeleteNode, the delete of a
  node with two children included (\<open>delete_spec\<close> grafts the left subtree below the
  minimum of the right one); a delete takes exactly the deleted element out of the
  stored values.
\<close>

theorem C6_tree_invariant_preserved:
  assumes "repr b s t" and "tree_inv (values_of t)"
  shows "(\<exists>s'. insert_BST v b s = Some ((Ptr (fresh s), True), b\<lparr>size_f := size_f b + 1\<rparr>, s') \<and>
            repr (b\<lparr>size_f := size_f b + 1\<rparr>) s' (insert_spec (fresh s) v t) \<and>
            tree_inv (values_of (insert_spec (fresh s) v t)) \<and>
            mset_tree (values_of (insert_spec (fresh s) v t)) = add_mset v (mset_tree (values_of t))) \<and>
         (\<forall>x w. (x, w) \<in> set_tree t \<longrightarrow>
            (\<exists>s'. DeleteNode s (Ptr x) = Some s' \<and> repr b s' (delete_spec x t) \<and>
               tree_inv (values_of (delete_spec x t)) \<and>
               mset_tree (values_of (delete_spec x t)) = mset_tree (values_of t) - {#w#}))"
proof (intro conjI allI impI)
  from insert_BST_repr[OF assms(1), of v] obtain s' where
    "insert_BST v b s = Some ((Ptr (fresh s), True), b\<lparr>size_f := size_f b + 1\<rparr>, s')"
    "repr (b\<lparr>size_f := size_f b + 1\<rparr>) s' (insert_spec (fresh s) v t)"
    by blast
  with tree_inv_insert_spec[OF assms(2), of "fresh s" v] mset_insert_spec[of "fresh s" v t]
  show "\<exists>s'. insert_BST v b s = Some ((Ptr (fresh s), True), b\<lparr>size_f := size_f b + 1\<rparr>, s') \<and>
            repr (b\<lparr>size_f := size_f b + 1\<rparr>) s' (insert_spec (fresh s) v t) \<and>
            tree_inv (values_of (insert_spec (fresh s) v t)) \<and>
            mset_tree (values_of (insert_spec (fresh s) v t)) = add_mset v (mset_tree (values_of t))"
    by blast
next
  fix x w assume xw: "(x, w) \<in> set_tree t"
  then have "x \<in> fst ` set_tree t" by force
  from DeleteNode_repr[OF assms(1) this] obtain s' where
    "DeleteNode s (Ptr x) = Some s'" "repr b s' (delete_spec x t)" by blast
  moreover from assms(1) have "distinct (map fst (inorder t))" by (rule reprE)
  ultimately show "\<exists>s'. DeleteNode s (Ptr x) = Some s' \<and> repr b s' (delete_spec x t) \<and>
               tree_inv (values_of (delete_spec x t)) \<and>
               mset_tree (values_of (delete_spec x t)) = mset_tree (values_of t) - {#w#}"
    using tree_inv_delete_spec[OF assms(2), of x] mset_delete_spec[OF _ xw] by blast
qed

theorem C6_tree_invariant_preserved_witness:
  "(case BST_of_list [2, 1, 3 :: int] of
      None \<Rightarrow> False
    | Some (b, s) \<Rightarrow>
        repr b s \<langle>\<langle>\<langle>\<rangle>, (2, 1), \<langle>\<rangle>\<rangle>, (1, 2), \<langle>\<langle>\<rangle>, (3, 3), \<langle>\<rangle>\<rangle>\<rangle> \<and>
        tree_inv \<langle>\<langle>\<langle>\<rangle>, 1, \<langle>\<rangle>\<rangle>, 2 :: int, \<langle>\<langle>\<rangle>, 3, \<langle>\<rangle>\<rangle>\<rangle> \<and>
        (\<exists>s'. DeleteNode s (Ptr 1) = Some s' \<and>
              repr b s' \<langle>\<langle>\<langle>\<rangle>, (2, 1), \<langle>\<rangle>\<rangle>, (3, 3), \<langle>\<rangle>\<rangle> \<and>
              tree_inv \<langle>\<langle>\<langle>\<rangle>, 1, \<langle>\<rangle>\<rangle>, 3 :: int, \<langle>\<rangle>\<rangle>) \<and>
        (\<exists>s'. insert_BST 2 b s = Some ((Ptr 4, True), b\<lparr>size_f := 4\<rparr>, s') \<and>
              repr (b\<lparr>size_f := 4\<rparr>) s'
                \<langle>\<langle>\<langle>\<rangle>, (2, 1), \<langle>\<rangle>\<rangle>, (1, 2), \<langle>\<langle>\<langle>\<rangle>, (4, 2), \<langle>\<rangle>\<rangle>, (3, 3), \<langle>\<rangle>\<rangle>\<rangle> \<and>
              tree_inv \<langle>\<langle>\<langle>\<rangle>, 1, \<langle>\<rangle>\<rangle>, 2 :: int, \<langle>\<langle>\<langle>\<rangle>, 2, \<langle>\<rangle>\<rangle>, 3, \<langle>\<rangle>\<rangle>\<rangle>))"
proof -
  let ?t = "\<langle>\<langle>\<langle>\<rangle>, (2, 1), \<langle>\<rangle>\<rangle>, (1, 2), \<langle>\<langle>\<rangle>, (3, 3), \<langle>\<rangle>\<rangle>\<rangle> :: (nat \<times> int) tree"
  have "case BST_of_list [2, 1, 3 :: int] of None \<Rightarrow> False
        | Some (b, s) \<Rightarrow> repr b s ?t \<and> fresh s = 4 \<and> size_f b = 3"
    by code_simp
  then obtain b s where bs: "BST_of_list [2, 1, 3 :: int] = Some (b, s)"
    "repr b s ?t" "fresh s = 4" "size_f b = 3"
    by (auto split: option.splits)
  have inv: "tree_inv (values_of ?t)" by (simp add: values_of_def)
  have mem: "(1, 2) \<in> set_tree ?t" by simp
  from C6_tree_invariant_preserved[OF bs(2) inv, of 2] mem bs show ?thesis
    by (auto simp: values_of_def)
qed




section \<open>The worked example\<close>

text \<open>
  C2: after inserting 4, 2, 6, 1, 3, 5, 7 into an empty tree, full forward iteration yields
  1 2 3 4 5 6 7 in order, 4 2 1 3 6 5 7 pre-order and 1 3 2 5 7 6 4 post-order.
\<close>

theorem C2_example_traversals:
  "(case BST_of_list [4, 2, 6, 1, 3, 5, 7 :: int] of
      None \<Rightarrow> None
    | Some (b, s) \<Rightarrow> Some (visit Inorder b s, visit Preorder b s, visit Postorder b s)) =
   Some (Some [1, 2, 3, 4, 5, 6, 7], Some [4, 2, 1, 3, 6, 5, 7], Some [1, 3, 2, 5, 7, 6, 4])"
  by code_simp

section \<open>Erasing at the end cursor\<close>

text \<open>
  C10: erase with a cursor equal to end(O) returns that cursor and leaves the container
  and the memory as they were, for every order and every tree.
\<close>

theorem C10_erase_end_noop:
  "erase_BST pick b s (end_BST pick b) = Some (end_BST pick b, b, s)"
  by (simp add: erase_BST_def)

section \<open>Where the code leaves the specification\<close>

text \<open>
  C4: on an empty tree begin(O) = end(O) for every order. The pre-order begin of an empty
  tree is the null pointer, the end is the sentinel; in order and post-order they agree.
\<close>

theorem C4_empty_preorder_begin:
  "(let (b, s) = BST_new (empty_store :: int store) in
      begin_BST Preorder b s = Some Null \<and> end_BST Preorder b = Ptr 0 \<and>
      begin_BST Inorder b s = Some (end_BST Inorder b) \<and>
      begin_BST Postorder b s = Some (end_BST Postorder b))"
  by code_simp

text \<open>
  The reverse end rend() is begin() stepped back once. When the data root has no left
  child, as after inserting 1, 2, 3, 4, 5, the in-order step back from begin() reads
  \<^verbatim>\<open>it_->parent_->parent_\<close> with \<^verbatim>\<open>it_\<close> on the sentinel, through a null pointer.
\<close>

lemma Subtract_Inorder_begin_at_data_root:
  "(case BST_of_list [1, 2, 3, 4, 5 :: int] of
      None \<Rightarrow> False
    | Some (b, s) \<Rightarrow>
        begin_BST Inorder b s = Some (Ptr 1) \<and> left_of s (Ptr 0) = Some (Ptr 1) \<and>
        Subtract Inorder s (Ptr 1) = None)"
  by code_simp

text \<open>
  C3: one step forward and one step back returns to the start, away from the boundaries.
  After inserting 3, 1, 2 the node holding 1 (at address 2) is neither the pre-order begin
  nor the end; its pre-order step forward skips its right child and lands on the
  sentinel, and the step back from there lands on the node holding 3. A reverse
  pre-order cursor on the node holding 2 (at address 3) steps forward to the node
  holding 1 and from there back to the sentinel.
\<close>

theorem C3_preorder_roundtrip_fails:
  "(case BST_of_list [3, 1, 2 :: int] of
      None \<Rightarrow> False
    | Some (b, s) \<Rightarrow>
        data_of s (Ptr 2) = Some 1 \<and>
        begin_BST Preorder b s = Some (Ptr 1) \<and> end_BST Preorder b = Ptr 0 \<and>
        Add Preorder s (Ptr 2) = Some (Ptr 0) \<and>
        Subtract Preorder s (Ptr 0) = Some (Ptr 1) \<and>
        data_of s (Ptr 1) = Some 3 \<and>
        data_of s (Ptr 3) = Some 2 \<and>
        ReverseIterator_inc Preorder s (Ptr 3) = Some (Ptr 2) \<and>
        ReverseIterator_dec Preorder s (Ptr 2) = Some (Ptr 0))"
  by code_simp

text \<open>
  C5: size() is the number of data nodes at every point. swap exchanges the sentinels
  only: after swapping a one-element tree with an empty one, the first reports size 1
  and holds nothing, the second reports size 0 and holds the element.
\<close>

theorem C5_swap_keeps_size:
  "(case BST_of_list [1 :: int] of
      None \<Rightarrow> False
    | Some (a, s) \<Rightarrow>
        (let (b, s') = BST_new s; (a', b') = swap_BST a b in
           size_BST a' = 1 \<and> visit Inorder a' s' = Some [] \<and> empty_BST a' s' = Some True \<and>
           size_BST b' = 0 \<and> visit Inorder b' s' = Some [1]))"
  by code_simp

text \<open>
  C8: find(v, O) is end(O) exactly when no element equals v. After inserting 1, 2 the
  value 2 is stored (the in-order walk shows it), and the pre-order find of 2 returns
  the end cursor, since the pre-order walk never reaches the right child of a node
  without a left child.
\<close>

theorem C8_preorder_find_misses:
  "(case BST_of_list [1, 2 :: int] of
      None \<Rightarrow> False
    | Some (b, s) \<Rightarrow>
        visit Inorder b s = Some [1, 2] \<and>
        find_BST Preorder b s 2 = Some (end_BST Preorder b) \<and>
        visit Preorder b s = Some [1])"
  by code_simp

end
